theory Spec2Isabelle
  imports Main "HOL-Library.Word" "HOL-Library.List_Lexorder" "HOL-Library.Char_ord"
    "HOL-Library.Product_Lexorder" "HOL-Library.Multiset"
begin

section \<open>The distribution ledger: contracts/src/MerkleRedeemV2.sol\<close>

subsection \<open>Data\<close>

type_synonym address = "160 word"
type_synonym uint = "256 word"
type_synonym bytes32 = "256 word"

text \<open>
  Every place where the contract can revert is one constructor. The first
  \<^verbatim>\<open>require(!claimed[..][..])\<close> of \<^verbatim>\<open>claimMonth\<close> and \<^verbatim>\<open>claimMonths\<close> carries
  no revert string in the source; it is \<open>Already_claimed\<close> here. \<open>Panic_0x11\<close> is the
  arithmetic panic of Solidity 0.8 checked arithmetic, \<open>Panic_0x41\<close> the panic of a memory
  array that is too large. \<open>Token_call_reverted\<close> is a revert raised inside the token
  contract and bubbled up by the call.
\<close>

datatype revert =
    Already_claimed
  | Incorrect_merkle_proof
  | ERR_TRANSFER_FAILED
  | Cannot_rewrite_merkle_root
  | Ownable_caller_is_not_the_owner
  | Panic_0x11
  | Panic_0x41
  | Token_call_reverted

datatype event = Claimed address uint

text \<open>Calls to the token contract that returned \<^verbatim>\<open>true\<close>, as (recipient, amount) for
  \<^verbatim>\<open>transfer\<close> and (from, to, amount) for \<^verbatim>\<open>transferFrom\<close>.\<close>

datatype token_call = Transfer address uint | TransferFrom address address uint

text \<open>
  The storage of the contract (\<^verbatim>\<open>monthMerkleRoots\<close>, \<^verbatim>\<open>claimed\<close>, the owner of
  \<^verbatim>\<open>Ownable\<close>), its own address, and what it has done to the outside: the events it
  emitted and the token calls that went through, both in order. A revert discards all of it
  (see \<open>transact\<close>).
\<close>

record MerkleRedeem =
  owner :: address
  this_address :: address
  monthMerkleRoots :: "uint \<Rightarrow> bytes32"
  claimed :: "uint \<Rightarrow> address \<Rightarrow> bool"
  events :: "event list"
  token_calls :: "token_call list"

text \<open>
  The token (\<^verbatim>\<open>IERC20 public token\<close>) is another contract whose code is not part of this
  repository, so it is a parameter. A call gets the state of the ledger at the moment of
  the call (what the callee could read back from it while it runs) and the arguments; it
  reverts (\<open>None\<close>) or returns a boolean.
\<close>

record token =
  token_transfer :: "MerkleRedeem \<Rightarrow> address \<Rightarrow> uint \<Rightarrow> bool option"
  token_transferFrom :: "MerkleRedeem \<Rightarrow> address \<Rightarrow> address \<Rightarrow> uint \<Rightarrow> bool option"

text \<open>
  The hash functions are parameters as well: \<open>leaf_hash a b\<close> is
  \<^verbatim>\<open>keccak256(abi.encodePacked(a, b))\<close> and \<open>hash_pair\<close> is the pair hash of
  OpenZeppelin's \<^verbatim>\<open>MerkleProof\<close>.
\<close>

record crypto =
  leaf_hash :: "address \<Rightarrow> uint \<Rightarrow> bytes32"
  hash_pair :: "bytes32 \<Rightarrow> bytes32 \<Rightarrow> bytes32"

record Claim =
  month :: uint
  balance :: uint
  merkleProof :: "bytes32 list"

subsection \<open>Operations\<close>

text \<open>OpenZeppelin's \<^verbatim>\<open>MerkleProof.processProof\<close> and \<^verbatim>\<open>MerkleProof.verify\<close>: fold the
  proof into the leaf, compare with the root.\<close>

fun processProof :: "crypto \<Rightarrow> bytes32 list \<Rightarrow> bytes32 \<Rightarrow> bytes32" where
  "processProof K [] computedHash = computedHash"
| "processProof K (p # ps) computedHash = processProof K ps (hash_pair K computedHash p)"

definition MerkleProof_verify :: "crypto \<Rightarrow> bytes32 list \<Rightarrow> bytes32 \<Rightarrow> bytes32 \<Rightarrow> bool" where
  "MerkleProof_verify K prf root leaf = (processProof K prf leaf = root)"

definition verifyClaim ::
  "crypto \<Rightarrow> address \<Rightarrow> uint \<Rightarrow> uint \<Rightarrow> bytes32 list \<Rightarrow> MerkleRedeem \<Rightarrow> bool" where
  "verifyClaim K lp m claimedBalance prf s =
     (let leaf = leaf_hash K lp claimedBalance
      in MerkleProof_verify K prf (monthMerkleRoots s m) leaf)"

definition disburse :: "token \<Rightarrow> address \<Rightarrow> uint \<Rightarrow> MerkleRedeem \<Rightarrow> revert + MerkleRedeem" where
  "disburse T lp bal s =
     (if 0 < bal then
        (let s1 = s\<lparr>events := events s @ [Claimed lp bal]\<rparr>
         in case token_transfer T s1 lp bal of
              None \<Rightarrow> Inl Token_call_reverted
            | Some ok \<Rightarrow>
                if ok then Inr (s1\<lparr>token_calls := token_calls s1 @ [Transfer lp bal]\<rparr>)
                else Inl ERR_TRANSFER_FAILED)
      else Inr s)"

definition mark_claimed :: "uint \<Rightarrow> address \<Rightarrow> MerkleRedeem \<Rightarrow> MerkleRedeem" where
  "mark_claimed m lp s = s\<lparr>claimed := (claimed s)(m := (claimed s m)(lp := True))\<rparr>"

definition claimMonth ::
  "crypto \<Rightarrow> token \<Rightarrow> address \<Rightarrow> uint \<Rightarrow> uint \<Rightarrow> bytes32 list \<Rightarrow> MerkleRedeem
     \<Rightarrow> revert + MerkleRedeem" where
  "claimMonth K T lp m claimedBalance prf s =
     (if claimed s m lp then Inl Already_claimed
      else if \<not> verifyClaim K lp m claimedBalance prf s then Inl Incorrect_merkle_proof
      else disburse T lp claimedBalance (mark_claimed m lp s))"

text \<open>The loop of \<^verbatim>\<open>claimMonths\<close>, with \<^verbatim>\<open>totalBalance\<close> as an accumulator;
  \<^verbatim>\<open>totalBalance += claim.balance\<close> is checked addition.\<close>

fun claimMonths_loop ::
  "crypto \<Rightarrow> address \<Rightarrow> Claim list \<Rightarrow> uint \<Rightarrow> MerkleRedeem \<Rightarrow> revert + (uint \<times> MerkleRedeem)" where
  "claimMonths_loop K lp [] totalBalance s = Inr (totalBalance, s)"
| "claimMonths_loop K lp (c # cs) totalBalance s =
     (if claimed s (month c) lp then Inl Already_claimed
      else if \<not> verifyClaim K lp (month c) (balance c) (merkleProof c) s
        then Inl Incorrect_merkle_proof
      else if 2 ^ 256 \<le> unat totalBalance + unat (balance c) then Inl Panic_0x11
      else claimMonths_loop K lp cs (totalBalance + balance c) (mark_claimed (month c) lp s))"

definition claimMonths ::
  "crypto \<Rightarrow> token \<Rightarrow> address \<Rightarrow> Claim list \<Rightarrow> MerkleRedeem \<Rightarrow> revert + MerkleRedeem" where
  "claimMonths K T lp claims s =
     (case claimMonths_loop K lp claims 0 s of
        Inl e \<Rightarrow> Inl e
      | Inr (totalBalance, s1) \<Rightarrow> disburse T lp totalBalance s1)"

definition seedAllocations ::
  "token \<Rightarrow> address \<Rightarrow> uint \<Rightarrow> bytes32 \<Rightarrow> uint \<Rightarrow> MerkleRedeem \<Rightarrow> revert + MerkleRedeem" where
  "seedAllocations T msg_sender m merkleRoot totalAllocation s =
     (if msg_sender \<noteq> owner s then Inl Ownable_caller_is_not_the_owner
      else if monthMerkleRoots s m \<noteq> 0 then Inl Cannot_rewrite_merkle_root
      else
        (let s1 = s\<lparr>monthMerkleRoots := (monthMerkleRoots s)(m := merkleRoot)\<rparr>
         in case token_transferFrom T s1 msg_sender (this_address s1) totalAllocation of
              None \<Rightarrow> Inl Token_call_reverted
            | Some ok \<Rightarrow>
                if ok then
                  Inr (s1\<lparr>token_calls := token_calls s1
                            @ [TransferFrom msg_sender (this_address s1) totalAllocation]\<rparr>)
                else Inl ERR_TRANSFER_FAILED))"

text \<open>A transaction is atomic: a revert leaves the state as it was before the call.\<close>

definition transact ::
  "(MerkleRedeem \<Rightarrow> revert + MerkleRedeem) \<Rightarrow> MerkleRedeem \<Rightarrow> MerkleRedeem \<times> revert option" where
  "transact f s = (case f s of Inl e \<Rightarrow> (s, Some e) | Inr s' \<Rightarrow> (s', None))"


text \<open>
  The two range getters (\<open>begin_m\<close>, \<open>end_m\<close> and \<open>sz\<close> are \<^verbatim>\<open>_begin\<close>, \<^verbatim>\<open>_end\<close>
  and \<^verbatim>\<open>size\<close>). \<^verbatim>\<open>uint size = 1 + _end - _begin\<close> is two checked operations, left to
  right; \<^verbatim>\<open>_begin + i\<close> is checked as well, and \<^verbatim>\<open>i++\<close> cannot overflow below
  \<^verbatim>\<open>size\<close>. \<^verbatim>\<open>new bool[](size)\<close> and \<^verbatim>\<open>new bytes32[](size)\<close> revert with
  \<open>Panic_0x41\<close> when \<^verbatim>\<open>size\<close> is above \<open>2^64 - 1\<close> (the length check of the compiled
  allocation) and give an array of \<^verbatim>\<open>size\<close> default values otherwise, filled by index.
  Gas is not part of the model.
\<close>

lemma unat_uint_less: "unat (w :: uint) < 2 ^ 256"
  using unsigned_less[of w, where 'a=nat] by simp

lemma unat_succ_below: "(i :: uint) < sz \<Longrightarrow> unat (i + 1) = Suc (unat i)"
proof -
  assume "i < sz"
  then have "unat i < unat sz" by (simp add: word_less_nat_alt)
  with unat_uint_less[of sz] have "unat i + unat (1 :: uint) < 2 ^ LENGTH(256)" by simp
  then have "unat (i + 1) = unat i + unat (1 :: uint)" by (simp only: unat_add_lem)
  then show ?thesis by simp
qed

function claimStatus_loop ::
  "MerkleRedeem \<Rightarrow> address \<Rightarrow> uint \<Rightarrow> uint \<Rightarrow> uint \<Rightarrow> bool list \<Rightarrow> revert + bool list" where
  "claimStatus_loop s lp begin_m sz i arr =
     (if i < sz then
        (if 2 ^ 256 \<le> unat begin_m + unat i then Inl Panic_0x11
         else claimStatus_loop s lp begin_m sz (i + 1) (arr[unat i := claimed s (begin_m + i) lp]))
      else Inr arr)"
  by pat_completeness auto
termination
  by (relation "measure (\<lambda>(s, lp, b, sz, i, arr). unat sz - unat i)")
     (auto simp: unat_succ_below word_less_nat_alt)

definition claimStatus :: "MerkleRedeem \<Rightarrow> address \<Rightarrow> uint \<Rightarrow> uint \<Rightarrow> revert + bool list" where
  "claimStatus s lp begin_m end_m =
     (if 2 ^ 256 \<le> 1 + unat end_m then Inl Panic_0x11
      else if unat (1 + end_m) < unat begin_m then Inl Panic_0x11
      else (let sz = 1 + end_m - begin_m
            in if 2 ^ 64 \<le> unat sz then Inl Panic_0x41
               else claimStatus_loop s lp begin_m sz 0 (replicate (unat sz) False)))"

function merkleRoots_loop ::
  "MerkleRedeem \<Rightarrow> uint \<Rightarrow> uint \<Rightarrow> uint \<Rightarrow> bytes32 list \<Rightarrow> revert + bytes32 list" where
  "merkleRoots_loop s begin_m sz i arr =
     (if i < sz then
        (if 2 ^ 256 \<le> unat begin_m + unat i then Inl Panic_0x11
         else merkleRoots_loop s begin_m sz (i + 1) (arr[unat i := monthMerkleRoots s (begin_m + i)]))
      else Inr arr)"
  by pat_completeness auto
termination
  by (relation "measure (\<lambda>(s, b, sz, i, arr). unat sz - unat i)")
     (auto simp: unat_succ_below word_less_nat_alt)

definition merkleRoots :: "MerkleRedeem \<Rightarrow> uint \<Rightarrow> uint \<Rightarrow> revert + bytes32 list" where
  "merkleRoots s begin_m end_m =
     (if 2 ^ 256 \<le> 1 + unat end_m then Inl Panic_0x11
      else if unat (1 + end_m) < unat begin_m then Inl Panic_0x11
      else (let sz = 1 + end_m - begin_m
            in if 2 ^ 64 \<le> unat sz then Inl Panic_0x41
               else merkleRoots_loop s begin_m sz 0 (replicate (unat sz) 0)))"

subsection \<open>Sequences of transactions\<close>

text \<open>
  The state-changing functions that MerkleRedeemV2.sol defines, with their arguments (the
  sender where the function reads \<^verbatim>\<open>msg.sender\<close>). Each call of a sequence runs as its
  own transaction, against the token as it behaves at that moment. The functions inherited
  from \<^verbatim>\<open>Ownable\<close> that hand the ownership over are not among them.
\<close>

datatype call =
    Call_claimMonth address uint uint "bytes32 list"
  | Call_claimMonths address "Claim list"
  | Call_seedAllocations address uint bytes32 uint

fun exec_call :: "crypto \<Rightarrow> token \<Rightarrow> call \<Rightarrow> MerkleRedeem \<Rightarrow> revert + MerkleRedeem" where
  "exec_call K T (Call_claimMonth lp m b prf) = claimMonth K T lp m b prf"
| "exec_call K T (Call_claimMonths lp claims) = claimMonths K T lp claims"
| "exec_call K T (Call_seedAllocations sender m r a) = seedAllocations T sender m r a"

definition step :: "crypto \<Rightarrow> token \<times> call \<Rightarrow> MerkleRedeem \<Rightarrow> MerkleRedeem" where
  "step K tc s = fst (transact (exec_call K (fst tc) (snd tc)) s)"

definition run :: "crypto \<Rightarrow> (token \<times> call) list \<Rightarrow> MerkleRedeem \<Rightarrow> MerkleRedeem" where
  "run K tcs s = fold (step K) tcs s"

text \<open>The claims of a batch made one at a time instead, stopping at the first revert.\<close>

fun claimMonth_each ::
  "crypto \<Rightarrow> token \<Rightarrow> address \<Rightarrow> Claim list \<Rightarrow> MerkleRedeem \<Rightarrow> revert + MerkleRedeem" where
  "claimMonth_each K T lp [] s = Inr s"
| "claimMonth_each K T lp (c # cs) s =
     (case claimMonth K T lp (month c) (balance c) (merkleProof c) s of
        Inl e \<Rightarrow> Inl e
      | Inr s1 \<Rightarrow> claimMonth_each K T lp cs s1)"

text \<open>Tokens sent out by \<^verbatim>\<open>transfer\<close> and pulled in by \<^verbatim>\<open>transferFrom\<close> so far.\<close>

fun paid_amount :: "token_call \<Rightarrow> nat" where
  "paid_amount (Transfer recipient a) = unat a"
| "paid_amount (TransferFrom sender recipient a) = 0"

fun pulled_amount :: "token_call \<Rightarrow> nat" where
  "pulled_amount (Transfer recipient a) = 0"
| "pulled_amount (TransferFrom sender recipient a) = unat a"

definition paid_out :: "MerkleRedeem \<Rightarrow> nat" where
  "paid_out s = sum_list (map paid_amount (token_calls s))"

definition escrow :: "MerkleRedeem \<Rightarrow> int" where
  "escrow s = int (sum_list (map pulled_amount (token_calls s))) - int (paid_out s)"

text \<open>A token that lets every transfer through.\<close>

definition accepting :: token where
  "accepting = \<lparr>token_transfer = (\<lambda>s recipient a. Some True),
                token_transferFrom = (\<lambda>s sender recipient a. Some True)\<rparr>"


section \<open>Pool sizing: snapshots/cli.js\<close>

text \<open>
  Amounts are ethers \<^verbatim>\<open>BigNumber\<close>s: signed integers of any size. \<^verbatim>\<open>add\<close>, \<^verbatim>\<open>sub\<close>
  and \<^verbatim>\<open>mul\<close> are exact; \<^verbatim>\<open>div\<close> throws on a zero divisor and truncates towards
  zero otherwise.
\<close>

datatype js_error =
    Division_by_zero
  | Unsupported_chain
  | Fetch_failed
  | Invalid_address
  | Invalid_BigNumber

definition bn_div :: "int \<Rightarrow> int \<Rightarrow> js_error + int" where
  "bn_div a b = (if b = 0 then Inl Division_by_zero else Inr (sgn a * sgn b * (\<bar>a\<bar> div \<bar>b\<bar>)))"

definition basis :: int where
  "basis = 1000000000"

text \<open>\<^verbatim>\<open>target\<close> of \<^verbatim>\<open>getDatesAndPeriod\<close>, from the number of months since the base
  month.\<close>

definition target_of :: "int \<Rightarrow> int" where
  "target_of monthDiff = min (29 + monthDiff) 50 * 10000000"

definition stakePercent :: "int \<Rightarrow> int \<Rightarrow> js_error + int" where
  "stakePercent totalPNKStaked totalSupply = bn_div (totalPNKStaked * basis) totalSupply"

definition fullReward :: "int \<Rightarrow> int \<Rightarrow> int \<Rightarrow> js_error + int" where
  "fullReward lastamount target stakePct =
     (let onePlusStakeMinusTarget = basis + target - stakePct
      in bn_div (lastamount * onePlusStakeMinusTarget) basis)"

text \<open>The four lines of \<^verbatim>\<open>main\<close> that size the pool, from the command-line amount, the
  target, the staked total and the token's total supply.\<close>

definition pool_sizing :: "int \<Rightarrow> int \<Rightarrow> int \<Rightarrow> int \<Rightarrow> js_error + int" where
  "pool_sizing lastamount target totalPNKStaked totalSupply =
     (case stakePercent totalPNKStaked totalSupply of
        Inl e \<Rightarrow> Inl e
      | Inr stakePct \<Rightarrow> fullReward lastamount target stakePct)"

definition non_negative_pool :: "js_error + int \<Rightarrow> bool" where
  "non_negative_pool r = (case r of Inl e \<Rightarrow> False | Inr pool \<Rightarrow> 0 \<le> pool)"

section \<open>The event fetcher: snapshots/src/helpers/subgraph-events.js\<close>

text \<open>A row of the subgraph's \<^verbatim>\<open>stakeSets\<close>, with the fields the query asks for
  (\<^verbatim>\<open>id\<close> is \<open>sid\<close> here, \<^verbatim>\<open>address\<close> is \<open>staker\<close>); the numeric fields hold
  the integers that the subgraph has stored.\<close>

record stakeSet =
  sid :: string
  staker :: string
  courtID :: int
  stake :: int
  newTotalStake :: int
  logIndex :: int
  blocknumber :: int

text \<open>The variable parts of the query text: the \<^verbatim>\<open>where\<close> clause. The rest is fixed:
  \<^verbatim>\<open>orderBy: id, orderDirection: asc, first: 1000\<close>.\<close>

record query =
  blocknumber_gte :: int
  blocknumber_lt :: int
  id_gt :: string

text \<open>
  \<^verbatim>\<open>fetch\<close> is a parameter: given the URL and the query it answers with the rows of
  \<^verbatim>\<open>data.stakeSets\<close>, or fails (\<open>None\<close>: the request, the JSON decoding or the field
  access throws). Every function that fetches also threads the list of requests sent so far.
\<close>

type_synonym fetch = "string \<Rightarrow> query \<Rightarrow> stakeSet list option"
type_synonym requests = "(string \<times> query) list"

definition fetchStakeSets ::
  "fetch \<Rightarrow> int \<Rightarrow> int \<Rightarrow> string \<Rightarrow> string \<Rightarrow> requests \<Rightarrow> (js_error + stakeSet list) \<times> requests" where
  "fetchStakeSets net blockStart blockEnd subgraphEndpoint lastId reqs =
     (let subgraphQuery =
            \<lparr>blocknumber_gte = blockStart, blocknumber_lt = blockEnd, id_gt = lastId\<rparr>
      in (case net subgraphEndpoint subgraphQuery of
            None \<Rightarrow> Inl Fetch_failed
          | Some stakeSets \<Rightarrow> Inr stakeSets,
          reqs @ [(subgraphEndpoint, subgraphQuery)]))"

function fetchAllStakeSets_loop ::
  "fetch \<Rightarrow> int \<Rightarrow> int \<Rightarrow> string \<Rightarrow> nat \<Rightarrow> stakeSet list list \<Rightarrow> string \<Rightarrow> requests
     \<Rightarrow> (js_error + stakeSet list list) \<times> requests" where
  "fetchAllStakeSets_loop net blockStart blockEnd subgraphEndpoint i batches lastId reqs =
     (if i < 1000 then
        (case fetchStakeSets net blockStart blockEnd subgraphEndpoint lastId reqs of
           (Inl e, reqs') \<Rightarrow> (Inl e, reqs')
         | (Inr sets, reqs') \<Rightarrow>
             (let batches' = batches @ [sets]
              in if length sets < 1000 then (Inr batches', reqs')
                 else fetchAllStakeSets_loop net blockStart blockEnd subgraphEndpoint (i + 1)
                        batches' (sid (sets ! 999)) reqs'))
      else (Inr batches, reqs))"
  by pat_completeness auto
termination
  by (relation "measure (\<lambda>(net, bs, be, ep, i, batches, lastId, reqs). 1000 - i)") auto

definition fetchAllStakeSets ::
  "fetch \<Rightarrow> int \<Rightarrow> int \<Rightarrow> string \<Rightarrow> requests \<Rightarrow> (js_error + stakeSet list) \<times> requests" where
  "fetchAllStakeSets net blockStart blockEnd subgraphEndpoint reqs =
     (case fetchAllStakeSets_loop net blockStart blockEnd subgraphEndpoint 0 [] [] reqs of
        (Inl e, reqs') \<Rightarrow> (Inl e, reqs')
      | (Inr batches, reqs') \<Rightarrow> (Inr (concat batches), reqs'))"

text \<open>
  The conversions that \<^verbatim>\<open>parseStakeSetsIntoEvents\<close> applies to the values of a row are
  parameters: \<^verbatim>\<open>utils.getAddress\<close> (the checksum form of an address) and
  \<^verbatim>\<open>BigNumber.from\<close> throw on a value they do not accept (\<open>None\<close>), and \<^verbatim>\<open>Number\<close>
  gives an IEEE double, which rounds integers above \<open>2^53\<close>. Doubles are not modelled: the
  type \<open>'n\<close> of the results of \<^verbatim>\<open>Number\<close> is left open, with the order in which the
  comparator of the sort puts them.
\<close>

record 'n conversions =
  getAddress :: "string \<Rightarrow> string option"
  bigNumberFrom :: "int \<Rightarrow> int option"
  toNumber :: "int \<Rightarrow> 'n"

record event_args =
  arg_address :: string
  arg_courtID :: int
  arg_stake :: int
  arg_newTotalStake :: int

record 'n stake_event =
  args :: event_args
  ev_logIndex :: 'n
  ev_blockNumber :: 'n

text \<open>The callback of the \<^verbatim>\<open>map\<close>, on one row: the conversions run in the order of the
  object literal, and the first one that throws ends the whole call.\<close>

definition parseStakeSet :: "'n conversions \<Rightarrow> stakeSet \<Rightarrow> js_error + 'n stake_event" where
  "parseStakeSet cv s =
     (case getAddress cv (staker s) of
        None \<Rightarrow> Inl Invalid_address
      | Some a \<Rightarrow>
     (case bigNumberFrom cv (courtID s) of
        None \<Rightarrow> Inl Invalid_BigNumber
      | Some c \<Rightarrow>
     (case bigNumberFrom cv (stake s) of
        None \<Rightarrow> Inl Invalid_BigNumber
      | Some st \<Rightarrow>
     (case bigNumberFrom cv (newTotalStake s) of
        None \<Rightarrow> Inl Invalid_BigNumber
      | Some nts \<Rightarrow>
          Inr \<lparr>args = \<lparr>arg_address = a, arg_courtID = c, arg_stake = st,
                        arg_newTotalStake = nts\<rparr>,
               ev_logIndex = toNumber cv (logIndex s),
               ev_blockNumber = toNumber cv (blocknumber s)\<rparr>))))"

fun parseStakeSetsIntoEvents ::
  "'n conversions \<Rightarrow> stakeSet list \<Rightarrow> js_error + 'n stake_event list" where
  "parseStakeSetsIntoEvents cv [] = Inr []"
| "parseStakeSetsIntoEvents cv (s # rest) =
     (case parseStakeSet cv s of
        Inl e \<Rightarrow> Inl e
      | Inr ev \<Rightarrow>
          (case parseStakeSetsIntoEvents cv rest of
             Inl e \<Rightarrow> Inl e
           | Inr evs \<Rightarrow> Inr (ev # evs)))"

definition getStakeSets ::
  "fetch \<Rightarrow> ('n :: linorder) conversions \<Rightarrow> int \<Rightarrow> int \<Rightarrow> int \<Rightarrow> requests
     \<Rightarrow> (js_error + 'n stake_event list) \<times> requests" where
  "getStakeSets net cv blockStart blockEnd chainId reqs =
     (if chainId = 42161 then
        (let endpoint =
               ''https://api.studio.thegraph.com/query/44313/kleros-v2-neo-mainnet/version/latest''
         in case fetchAllStakeSets net blockStart blockEnd endpoint reqs of
              (Inl e, reqs') \<Rightarrow> (Inl e, reqs')
            | (Inr subgraphStakeSets, reqs') \<Rightarrow>
                (case parseStakeSetsIntoEvents cv subgraphStakeSets of
                   Inl e \<Rightarrow> (Inl e, reqs')
                 | Inr parsed \<Rightarrow>
                     (Inr (sort_key (\<lambda>e. (ev_blockNumber e, ev_logIndex e)) parsed), reqs')))
      else (Inl Unsupported_chain, reqs))"

text \<open>
  The subgraph as the fetcher expects it to answer, over the rows \<open>db\<close> it has indexed: the
  rows that satisfy the \<^verbatim>\<open>where\<close> clause, in ascending order of id, the first 1000 of
  them.
\<close>

definition in_range :: "int \<Rightarrow> int \<Rightarrow> stakeSet \<Rightarrow> bool" where
  "in_range blockStart blockEnd r = (blockStart \<le> blocknumber r \<and> blocknumber r < blockEnd)"

definition subgraph :: "stakeSet list \<Rightarrow> fetch" where
  "subgraph db url q =
     Some (take 1000 (sort_key sid
       (filter (\<lambda>r. in_range (blocknumber_gte q) (blocknumber_lt q) r \<and> id_gt q < sid r) db)))"

text \<open>The rows of the range with an id above the cursor, in ascending order of id: what is
  left to fetch after a page that ended at \<open>lastId\<close>.\<close>

definition rows_after :: "stakeSet list \<Rightarrow> int \<Rightarrow> int \<Rightarrow> string \<Rightarrow> stakeSet list" where
  "rows_after db blockStart blockEnd lastId =
     filter (\<lambda>r. lastId < sid r) (sort_key sid (filter (in_range blockStart blockEnd) db))"

section \<open>Concrete inputs\<close>

text \<open>
  The ledger right after deployment (\<^verbatim>\<open>Ownable\<close> makes the deployer the owner; every
  mapping is zero), a small hash with which proofs can be computed by hand, a ledger whose
  periods 1 and 2 have the root of the single leaf (7, 100) and whose periods 5 and 6 have
  the root of the single leaf (7, 0), a token that refuses a transfer made while one of the
  given periods is still unclaimed for the given address, a token that refuses everything,
  and three batches for the address 7.
\<close>

definition constructor :: "address \<Rightarrow> address \<Rightarrow> MerkleRedeem" where
  "constructor deployer this =
     \<lparr>owner = deployer, this_address = this, monthMerkleRoots = (\<lambda>m. 0),
      claimed = (\<lambda>m a. False), events = [], token_calls = []\<rparr>"

definition demo_crypto :: crypto where
  "demo_crypto = \<lparr>leaf_hash = (\<lambda>a b. ucast a + b), hash_pair = (\<lambda>x y. x + y)\<rparr>"

definition seeded :: MerkleRedeem where
  "seeded = (constructor 1 2)\<lparr>monthMerkleRoots :=
     (\<lambda>m. if m = 1 \<or> m = 2 then 107 else if m = 5 \<or> m = 6 then 7 else 0)\<rparr>"

definition flag_probe :: "uint list \<Rightarrow> address \<Rightarrow> token" where
  "flag_probe ms lp =
     \<lparr>token_transfer =
        (\<lambda>s recipient a. if list_all (\<lambda>m. claimed s m lp) ms then Some True else None),
      token_transferFrom = (\<lambda>s sender recipient a. Some True)\<rparr>"

definition refusing :: token where
  "refusing = \<lparr>token_transfer = (\<lambda>s recipient a. None),
               token_transferFrom = (\<lambda>s sender recipient a. None)\<rparr>"

definition demo_batch :: "Claim list" where
  "demo_batch = [\<lparr>month = 1, balance = 100, merkleProof = []\<rparr>,
                 \<lparr>month = 2, balance = 100, merkleProof = []\<rparr>]"

definition bad_batch :: "Claim list" where
  "bad_batch = demo_batch @ [\<lparr>month = 3, balance = 50, merkleProof = []\<rparr>]"

definition zero_batch :: "Claim list" where
  "zero_batch = [\<lparr>month = 5, balance = 0, merkleProof = []\<rparr>,
                 \<lparr>month = 6, balance = 0, merkleProof = []\<rparr>]"

text \<open>Seeding with the zero root, then seeding the same period again.\<close>

definition zero_seeded :: MerkleRedeem where
  "zero_seeded = fst (transact (seedAllocations accepting 1 1 0 1000) (constructor 1 2))"

definition reseeded :: MerkleRedeem where
  "reseeded = fst (transact (seedAllocations accepting 1 1 5 500) zero_seeded)"

text \<open>A ledger whose periods 1 and 2 have the root of the single leaf \<open>(7, 2^255)\<close>, and
  the batch of these two claims.\<close>

definition big_amount :: uint where
  "big_amount = 2 ^ 255"

definition big_seeded :: MerkleRedeem where
  "big_seeded = (constructor 1 2)\<lparr>monthMerkleRoots :=
     (\<lambda>m. if m = 1 \<or> m = 2 then 7 + big_amount else 0)\<rparr>"

definition big_batch :: "Claim list" where
  "big_batch = [\<lparr>month = 1, balance = big_amount, merkleProof = []\<rparr>,
                \<lparr>month = 2, balance = big_amount, merkleProof = []\<rparr>]"

text \<open>A network on which every request fails, and conversions that accept every value and
  keep the numbers as they are.\<close>

definition plain_conversions :: "int conversions" where
  "plain_conversions = \<lparr>getAddress = Some, bigNumberFrom = Some, toNumber = (\<lambda>k. k)\<rparr>"


definition offline :: fetch where
  "offline url q = None"

text \<open>Rows of the subgraph: three rows of which two lie in the blocks 10 to 19, and \<open>n\<close>
  rows at block 5 whose ids are \<open>a\<close>, \<open>aa\<close>, \<open>aaa\<close> and so on.\<close>

definition demo_row :: "string \<Rightarrow> int \<Rightarrow> stakeSet" where
  "demo_row i b = \<lparr>sid = i, staker = ''0x00'', courtID = 0, stake = 1, newTotalStake = 1,
                   logIndex = 0, blocknumber = b\<rparr>"

definition demo_db :: "stakeSet list" where
  "demo_db = [demo_row ''b'' 15, demo_row ''a'' 12, demo_row ''c'' 30]"

definition flood_row :: "nat \<Rightarrow> stakeSet" where
  "flood_row k = demo_row (replicate (Suc k) CHR ''a'') 5"

definition flood :: "nat \<Rightarrow> stakeSet list" where
  "flood n = map flood_row [0..<n]"

section \<open>Properties of the ledger\<close>

lemma disburse_Inr:
  "disburse T lp b s = Inr s' \<Longrightarrow>
     s' = s\<lparr>events := events s @ (if 0 < b then [Claimed lp b] else []),
            token_calls := token_calls s @ (if 0 < b then [Transfer lp b] else [])\<rparr>"
  by (auto simp: disburse_def Let_def split: if_splits option.splits)

lemma disburse_zero: "disburse T lp 0 s = Inr s"
  by (simp add: disburse_def)

lemma verifyClaim_cong:
  "monthMerkleRoots s' = monthMerkleRoots s \<Longrightarrow> verifyClaim K lp m b prf s' = verifyClaim K lp m b prf s"
  by (simp add: verifyClaim_def)

lemma loop_Inr:
  "claimMonths_loop K lp cs t s = Inr (t', s') \<Longrightarrow>
     s' = s\<lparr>claimed := (\<lambda>m a. claimed s m a \<or> (a = lp \<and> m \<in> month ` set cs))\<rparr>
   \<and> unat t' = unat t + sum_list (map (\<lambda>c. unat (balance c)) cs)
   \<and> distinct (map month cs)
   \<and> (\<forall>c \<in> set cs. \<not> claimed s (month c) lp \<and> verifyClaim K lp (month c) (balance c) (merkleProof c) s)"
proof (induction cs arbitrary: t s)
  case Nil
  then show ?case by simp
next
  case (Cons c cs)
  let ?s1 = "mark_claimed (month c) lp s"
  from Cons.prems have nc: "\<not> claimed s (month c) lp"
    and v: "verifyClaim K lp (month c) (balance c) (merkleProof c) s"
    and nov: "unat t + unat (balance c) < 2 ^ 256"
    and rec: "claimMonths_loop K lp cs (t + balance c) ?s1 = Inr (t', s')"
    by (auto split: if_splits)
  from Cons.IH[OF rec] have
    s': "s' = ?s1\<lparr>claimed := (\<lambda>m a. claimed ?s1 m a \<or> (a = lp \<and> m \<in> month ` set cs))\<rparr>"
    and t': "unat t' = unat (t + balance c) + sum_list (map (\<lambda>c. unat (balance c)) cs)"
    and d: "distinct (map month cs)"
    and all: "\<forall>c' \<in> set cs. \<not> claimed ?s1 (month c') lp \<and> verifyClaim K lp (month c') (balance c') (merkleProof c') ?s1"
    by blast+
  have ua: "unat (t + balance c) = unat t + unat (balance c)"
    using nov by (simp add: unat_add_lem[THEN iffD1])
  have 1: "s' = s\<lparr>claimed := (\<lambda>m a. claimed s m a \<or> (a = lp \<and> m \<in> month ` set (c # cs)))\<rparr>"
    unfolding s' by (auto simp: mark_claimed_def fun_eq_iff)
  have 2: "unat t' = unat t + sum_list (map (\<lambda>c. unat (balance c)) (c # cs))"
    using t' ua by simp
  have 3: "distinct (map month (c # cs))"
    using d all by (auto simp: mark_claimed_def)
  have 4: "\<forall>c' \<in> set (c # cs). \<not> claimed s (month c') lp \<and> verifyClaim K lp (month c') (balance c') (merkleProof c') s"
    using all nc v by (auto simp: mark_claimed_def verifyClaim_def split: if_splits)
  from 1 2 3 4 show ?case by blast
qed


lemma loop_succeeds:
  "distinct (map month cs) \<Longrightarrow>
   \<forall>c \<in> set cs. \<not> claimed s (month c) lp \<and> verifyClaim K lp (month c) (balance c) (merkleProof c) s \<Longrightarrow>
   unat t + sum_list (map (\<lambda>c. unat (balance c)) cs) < 2 ^ 256 \<Longrightarrow>
   \<exists>t' s'. claimMonths_loop K lp cs t s = Inr (t', s')"
proof (induction cs arbitrary: t s)
  case Nil
  then show ?case by simp
next
  case (Cons c cs)
  let ?s1 = "mark_claimed (month c) lp s"
  have nov: "unat t + unat (balance c) < 2 ^ 256"
    using Cons.prems(3) by simp
  then have ua: "unat (t + balance c) = unat t + unat (balance c)"
    by (simp add: unat_add_lem[THEN iffD1])
  have a: "distinct (map month cs)" using Cons.prems(1) by simp
  have b: "\<forall>c' \<in> set cs. \<not> claimed ?s1 (month c') lp
              \<and> verifyClaim K lp (month c') (balance c') (merkleProof c') ?s1"
  proof
    fix c' assume c': "c' \<in> set cs"
    then have "month c' \<in> month ` set cs" by (rule imageI)
    moreover have "month c \<notin> month ` set cs" using Cons.prems(1) by simp
    ultimately have "month c' \<noteq> month c" by metis
    then show "\<not> claimed ?s1 (month c') lp
              \<and> verifyClaim K lp (month c') (balance c') (merkleProof c') ?s1"
      using Cons.prems(2) c' by (simp add: mark_claimed_def verifyClaim_def)
  qed
  have c: "unat (t + balance c) + sum_list (map (\<lambda>c. unat (balance c)) cs) < 2 ^ 256"
    using Cons.prems(3) ua by simp
  from Cons.IH[OF a b c] obtain t' s' where
    "claimMonths_loop K lp cs (t + balance c) ?s1 = Inr (t', s')" by blast
  then show ?case using Cons.prems(2) nov by simp
qed

lemma loop_fails:
  "c \<in> set cs \<Longrightarrow> claimed s (month c) lp \<or> \<not> verifyClaim K lp (month c) (balance c) (merkleProof c) s \<Longrightarrow>
   \<exists>e. claimMonths_loop K lp cs t s = Inl e"
  by (cases "claimMonths_loop K lp cs t s") (auto dest!: loop_Inr)

lemma claimMonth_Inr:
  "claimMonth K T lp m b prf s = Inr s' \<Longrightarrow>
     \<not> claimed s m lp \<and> verifyClaim K lp m b prf s \<and>
     s' = (mark_claimed m lp s)\<lparr>events := events s @ (if 0 < b then [Claimed lp b] else []),
            token_calls := token_calls s @ (if 0 < b then [Transfer lp b] else [])\<rparr>"
  by (auto simp: claimMonth_def mark_claimed_def split: if_splits dest!: disburse_Inr)

lemma claimMonths_Inr:
  assumes "claimMonths K T lp cs s = Inr s'"
  shows "\<exists>total. unat total = sum_list (map (\<lambda>c. unat (balance c)) cs) \<and>
     s' = s\<lparr>claimed := (\<lambda>m a. claimed s m a \<or> (a = lp \<and> m \<in> month ` set cs)),
            events := events s @ (if 0 < total then [Claimed lp total] else []),
            token_calls := token_calls s @ (if 0 < total then [Transfer lp total] else [])\<rparr>"
proof -
  from assms obtain total s1 where l: "claimMonths_loop K lp cs 0 s = Inr (total, s1)"
    and d: "disburse T lp total s1 = Inr s'"
    by (auto simp: claimMonths_def split: sum.splits)
  from loop_Inr[OF l] disburse_Inr[OF d] show ?thesis
    by (intro exI[of _ total]) simp
qed

lemma seedAllocations_Inr:
  "seedAllocations T sender m r a s = Inr s' \<Longrightarrow>
     sender = owner s \<and> monthMerkleRoots s m = 0 \<and>
     s' = s\<lparr>monthMerkleRoots := (monthMerkleRoots s)(m := r),
            token_calls := token_calls s @ [TransferFrom sender (this_address s) a]\<rparr>"
  by (auto simp: seedAllocations_def Let_def split: if_splits option.splits)

lemma step_cases:
  "step K tc s = s \<or> (\<exists>s'. exec_call K (fst tc) (snd tc) s = Inr s' \<and> step K tc s = s')"
  by (cases "exec_call K (fst tc) (snd tc) s") (simp_all add: step_def transact_def)

lemma step_claimed: "claimed s m a \<Longrightarrow> claimed (step K tc s) m a"
  using step_cases[of K tc s]
  by (cases "snd tc")
     (auto dest!: claimMonth_Inr claimMonths_Inr seedAllocations_Inr simp: mark_claimed_def)

lemma step_root:
  "monthMerkleRoots s m \<noteq> 0 \<Longrightarrow> monthMerkleRoots (step K tc s) m = monthMerkleRoots s m"
  using step_cases[of K tc s]
  by (cases "snd tc")
     (auto dest!: claimMonth_Inr claimMonths_Inr seedAllocations_Inr simp: mark_claimed_def)

lemma run_claimed: "claimed s m a \<Longrightarrow> claimed (run K tcs s) m a"
  unfolding run_def by (induction tcs arbitrary: s) (simp_all add: step_claimed)

lemma run_root:
  "monthMerkleRoots s m \<noteq> 0 \<Longrightarrow> monthMerkleRoots (run K tcs s) m = monthMerkleRoots s m"
  unfolding run_def by (induction tcs arbitrary: s) (simp_all add: step_root)

lemma each_Inr:
  "claimMonth_each K T lp cs s = Inr s' \<Longrightarrow>
     claimed s' = (\<lambda>m a. claimed s m a \<or> (a = lp \<and> m \<in> month ` set cs))
   \<and> monthMerkleRoots s' = monthMerkleRoots s
   \<and> paid_out s' = paid_out s + sum_list (map (\<lambda>c. unat (balance c)) cs)
   \<and> distinct (map month cs)
   \<and> (\<forall>c \<in> set cs. \<not> claimed s (month c) lp \<and> verifyClaim K lp (month c) (balance c) (merkleProof c) s)"
proof (induction cs arbitrary: s)
  case Nil
  then show ?case by simp
next
  case (Cons c cs)
  from Cons.prems obtain s1 where
    one: "claimMonth K T lp (month c) (balance c) (merkleProof c) s = Inr s1"
    and rest: "claimMonth_each K T lp cs s1 = Inr s'"
    by (auto split: sum.splits)
  from claimMonth_Inr[OF one] have nc: "\<not> claimed s (month c) lp"
    and v: "verifyClaim K lp (month c) (balance c) (merkleProof c) s"
    and s1: "s1 = (mark_claimed (month c) lp s)\<lparr>events := events s @ (if 0 < balance c then [Claimed lp (balance c)] else []),
            token_calls := token_calls s @ (if 0 < balance c then [Transfer lp (balance c)] else [])\<rparr>"
    by blast+
  have c1: "claimed s1 = (\<lambda>m a. claimed s m a \<or> (a = lp \<and> m = month c))"
    unfolding s1 by (auto simp: mark_claimed_def fun_eq_iff)
  have r1: "monthMerkleRoots s1 = monthMerkleRoots s"
    unfolding s1 by (simp add: mark_claimed_def)
  have z: "\<not> 0 < balance c \<Longrightarrow> unat (balance c) = 0"
    by (simp add: word_greater_zero_iff)
  have p1: "paid_out s1 = paid_out s + unat (balance c)"
    unfolding s1 using z by (simp add: paid_out_def mark_claimed_def)
  from Cons.IH[OF rest] have
    cs': "claimed s' = (\<lambda>m a. claimed s1 m a \<or> (a = lp \<and> m \<in> month ` set cs))"
    and rs': "monthMerkleRoots s' = monthMerkleRoots s1"
    and ps': "paid_out s' = paid_out s1 + sum_list (map (\<lambda>c. unat (balance c)) cs)"
    and d: "distinct (map month cs)"
    and all: "\<forall>c' \<in> set cs. \<not> claimed s1 (month c') lp \<and> verifyClaim K lp (month c') (balance c') (merkleProof c') s1"
    by blast+
  have 1: "claimed s' = (\<lambda>m a. claimed s m a \<or> (a = lp \<and> m \<in> month ` set (c # cs)))"
    unfolding cs' c1 by (auto simp: fun_eq_iff)
  have 2: "monthMerkleRoots s' = monthMerkleRoots s" using rs' r1 by simp
  have 3: "paid_out s' = paid_out s + sum_list (map (\<lambda>c. unat (balance c)) (c # cs))"
    using ps' p1 by simp
  have 4: "distinct (map month (c # cs))"
    using d all by (auto simp: c1)
  have 5: "\<forall>c' \<in> set (c # cs). \<not> claimed s (month c') lp \<and> verifyClaim K lp (month c') (balance c') (merkleProof c') s"
    using all nc v by (auto simp: c1 verifyClaim_cong[OF r1])
  from 1 2 3 4 5 show ?case by blast
qed

lemma claimMonth_accepting:
  "\<not> claimed s m lp \<Longrightarrow> verifyClaim K lp m b prf s \<Longrightarrow>
   claimMonth K accepting lp m b prf s
     = Inr ((mark_claimed m lp s)\<lparr>events := events s @ (if 0 < b then [Claimed lp b] else []),
            token_calls := token_calls s @ (if 0 < b then [Transfer lp b] else [])\<rparr>)"
  by (simp add: claimMonth_def disburse_def accepting_def mark_claimed_def Let_def)

lemma each_succeeds:
  "distinct (map month cs) \<Longrightarrow>
   \<forall>c \<in> set cs. \<not> claimed s (month c) lp \<and> verifyClaim K lp (month c) (balance c) (merkleProof c) s \<Longrightarrow>
   \<exists>s'. claimMonth_each K accepting lp cs s = Inr s'"
proof (induction cs arbitrary: s)
  case Nil
  then show ?case by simp
next
  case (Cons c cs)
  let ?s1 = "(mark_claimed (month c) lp s)\<lparr>events := events s @ (if 0 < balance c then [Claimed lp (balance c)] else []),
            token_calls := token_calls s @ (if 0 < balance c then [Transfer lp (balance c)] else [])\<rparr>"
  have one: "claimMonth K accepting lp (month c) (balance c) (merkleProof c) s = Inr ?s1"
    using Cons.prems(2) by (intro claimMonth_accepting) simp_all
  have a: "distinct (map month cs)" using Cons.prems(1) by simp
  have b: "\<forall>c' \<in> set cs. \<not> claimed ?s1 (month c') lp
              \<and> verifyClaim K lp (month c') (balance c') (merkleProof c') ?s1"
  proof
    fix c' assume c': "c' \<in> set cs"
    then have "month c' \<in> month ` set cs" by (rule imageI)
    moreover have "month c \<notin> month ` set cs" using Cons.prems(1) by simp
    ultimately have "month c' \<noteq> month c" by metis
    then show "\<not> claimed ?s1 (month c') lp
              \<and> verifyClaim K lp (month c') (balance c') (merkleProof c') ?s1"
      using Cons.prems(2) c' by (simp add: mark_claimed_def verifyClaim_def)
  qed
  from Cons.IH[OF a b] obtain s' where "claimMonth_each K accepting lp cs ?s1 = Inr s'" by blast
  then show ?case using one by simp
qed

lemma transact_Inl: "f s = Inl e \<Longrightarrow> transact f s = (s, Some e)"
  by (simp add: transact_def)

lemma claimMonth_claimed: "claimed s m lp \<Longrightarrow> claimMonth K T lp m b prf s = Inl Already_claimed"
  by (simp add: claimMonth_def)

lemma unat_pos_zero: "\<not> 0 < (b :: uint) \<Longrightarrow> unat b = 0"
  by (simp add: word_greater_zero_iff)

text \<open>
  C1. A claim for a pair goes through at most once. When \<^verbatim>\<open>claimMonth\<close> succeeds, the
  proof was valid and the pair unclaimed, the pair is now claimed and exactly one transfer
  of the amount was made (none for the amount 0); the same call again reverts with
  \<open>Already_claimed\<close> and leaves the state, hence the token, untouched, and so does any
  claim for that pair after any further transactions. With a valid proof, an unclaimed pair
  and a token that pays, the first call does succeed.
\<close>

theorem claimSingle_at_most_once:
  "(claimMonth K T lp m b prf s = Inr s1 \<longrightarrow>
      verifyClaim K lp m b prf s \<and> \<not> claimed s m lp \<and> claimed s1 m lp
      \<and> token_calls s1 = token_calls s @ (if 0 < b then [Transfer lp b] else [])
      \<and> paid_out s1 = paid_out s + unat b
      \<and> transact (claimMonth K T' lp m b prf) s1 = (s1, Some Already_claimed)
      \<and> transact (claimMonth K T' lp m b' prf') (run K tcs s1)
          = (run K tcs s1, Some Already_claimed))
   \<and> (verifyClaim K lp m b prf s \<and> \<not> claimed s m lp
        \<and> (\<forall>s'. token_transfer T s' lp b = Some True)
      \<longrightarrow> (\<exists>s1. claimMonth K T lp m b prf s = Inr s1))"
proof (intro conjI impI)
  assume ok: "claimMonth K T lp m b prf s = Inr s1"
  from claimMonth_Inr[OF ok] have v: "verifyClaim K lp m b prf s" and nc: "\<not> claimed s m lp"
    and s1: "s1 = (mark_claimed m lp s)\<lparr>events := events s @ (if 0 < b then [Claimed lp b] else []),
            token_calls := token_calls s @ (if 0 < b then [Transfer lp b] else [])\<rparr>"
    by blast+
  show "verifyClaim K lp m b prf s" by (rule v)
  show "\<not> claimed s m lp" by (rule nc)
  show c1: "claimed s1 m lp" unfolding s1 by (simp add: mark_claimed_def)
  show "token_calls s1 = token_calls s @ (if 0 < b then [Transfer lp b] else [])"
    unfolding s1 by (simp add: mark_claimed_def)
  show "paid_out s1 = paid_out s + unat b"
    unfolding s1 using unat_pos_zero[of b] by (simp add: paid_out_def mark_claimed_def)
  show "transact (claimMonth K T' lp m b prf) s1 = (s1, Some Already_claimed)"
    using c1 by (intro transact_Inl claimMonth_claimed)
  have "claimed (run K tcs s1) m lp" using c1 by (rule run_claimed)
  then show "transact (claimMonth K T' lp m b' prf') (run K tcs s1)
          = (run K tcs s1, Some Already_claimed)"
    by (intro transact_Inl claimMonth_claimed)
next
  assume a: "verifyClaim K lp m b prf s \<and> \<not> claimed s m lp
        \<and> (\<forall>s'. token_transfer T s' lp b = Some True)"
  then show "\<exists>s1. claimMonth K T lp m b prf s = Inr s1"
    by (simp add: claimMonth_def disburse_def Let_def)
qed

lemma seeded_simps:
  "monthMerkleRoots seeded 1 = 107" "claimed seeded m a = False"
  "token_calls seeded = []" "events seeded = []" "owner seeded = 1"
  by (simp_all add: seeded_def constructor_def)

lemma demo_verify: "verifyClaim demo_crypto 7 1 100 [] seeded"
  by (simp add: verifyClaim_def MerkleProof_verify_def demo_crypto_def seeded_simps)

theorem claimSingle_at_most_once_witness:
  "verifyClaim demo_crypto 7 1 100 [] seeded \<and> \<not> claimed seeded 1 7
   \<and> (\<exists>s1. claimMonth demo_crypto accepting 7 1 100 [] seeded = Inr s1
         \<and> claimed s1 1 7 \<and> token_calls s1 = [Transfer 7 100] \<and> paid_out s1 = 100
         \<and> transact (claimMonth demo_crypto accepting 7 1 100 []) s1 = (s1, Some Already_claimed))"
proof -
  have acc: "\<forall>s'. token_transfer accepting s' 7 100 = Some True"
    by (simp add: accepting_def)
  have pre: "verifyClaim demo_crypto 7 1 100 [] seeded \<and> \<not> claimed seeded 1 7"
    using demo_verify by (simp add: seeded_simps)
  note main = claimSingle_at_most_once[of demo_crypto accepting 7 1 100 "[]" seeded _ accepting 100 "[]" "[]"]
  from main pre acc obtain s1 where ok: "claimMonth demo_crypto accepting 7 1 100 [] seeded = Inr s1"
    by blast
  from main[of s1] ok have
    "claimed s1 1 7 \<and> token_calls s1 = token_calls seeded @ (if (0::uint) < 100 then [Transfer 7 100] else [])
     \<and> paid_out s1 = paid_out seeded + unat (100 :: uint)
     \<and> transact (claimMonth demo_crypto accepting 7 1 100 []) s1 = (s1, Some Already_claimed)"
    by blast
  then have "claimed s1 1 7 \<and> token_calls s1 = [Transfer 7 100] \<and> paid_out s1 = 100
         \<and> transact (claimMonth demo_crypto accepting 7 1 100 []) s1 = (s1, Some Already_claimed)"
    by (simp add: seeded_simps paid_out_def)
  with ok pre show ?thesis by blast
qed

lemma escrow_seed:
  "escrow (s\<lparr>monthMerkleRoots := r, token_calls := token_calls s @ [TransferFrom x y a]\<rparr>)
     = escrow s + int (unat a)"
  by (simp add: escrow_def paid_out_def)

lemma seedAllocations_fails:
  "monthMerkleRoots s m \<noteq> 0 \<Longrightarrow>
   seedAllocations T sender m r a s
     = Inl (if sender = owner s then Cannot_rewrite_merkle_root else Ownable_caller_is_not_the_owner)"
  by (simp add: seedAllocations_def)

lemma seedAllocations_accepted:
  "sender = owner s \<Longrightarrow> monthMerkleRoots s m = 0 \<Longrightarrow>
   \<forall>s'. token_transferFrom T s' sender (this_address s) a = Some True \<Longrightarrow>
   seedAllocations T sender m r a s
     = Inr (s\<lparr>monthMerkleRoots := (monthMerkleRoots s)(m := r),
            token_calls := token_calls s @ [TransferFrom sender (this_address s) a]\<rparr>)"
  by (simp add: seedAllocations_def Let_def)

text \<open>
  C2, as amended. Once \<^verbatim>\<open>seedAllocations\<close> has succeeded for a period with a root other
  than \<^verbatim>\<open>bytes32(0)\<close>, the period keeps that root through any later transactions, and
  every later \<^verbatim>\<open>seedAllocations\<close> for the period reverts (with the rewrite error for the
  owner, the ownership error for anyone else) and leaves the whole state, hence the stored
  root and the escrow, as it was. The first seeding raises the escrow by the allocation.
\<close>

theorem root_immutable_once_nonzero:
  "seedAllocations T sender m rootX a s = Inr s1 \<and> rootX \<noteq> 0 \<longrightarrow>
     monthMerkleRoots s1 m = rootX \<and> escrow s1 = escrow s + int (unat a)
     \<and> monthMerkleRoots (run K tcs s1) m = rootX
     \<and> transact (seedAllocations T' sender' m rootY b) (run K tcs s1)
         = (run K tcs s1,
            Some (if sender' = owner (run K tcs s1) then Cannot_rewrite_merkle_root
                  else Ownable_caller_is_not_the_owner))"
proof (intro impI, elim conjE)
  assume ok: "seedAllocations T sender m rootX a s = Inr s1" and nz: "rootX \<noteq> 0"
  from seedAllocations_Inr[OF ok] have
    s1: "s1 = s\<lparr>monthMerkleRoots := (monthMerkleRoots s)(m := rootX),
            token_calls := token_calls s @ [TransferFrom sender (this_address s) a]\<rparr>"
    by blast
  have r1: "monthMerkleRoots s1 m = rootX" unfolding s1 by simp
  have e1: "escrow s1 = escrow s + int (unat a)" unfolding s1 by (rule escrow_seed)
  have r2: "monthMerkleRoots (run K tcs s1) m = rootX"
    using run_root[of s1 m K tcs] r1 nz by simp
  have "seedAllocations T' sender' m rootY b (run K tcs s1)
      = Inl (if sender' = owner (run K tcs s1) then Cannot_rewrite_merkle_root
             else Ownable_caller_is_not_the_owner)"
    using seedAllocations_fails[of "run K tcs s1" m T' sender' rootY b] r2 nz by simp
  then have t: "transact (seedAllocations T' sender' m rootY b) (run K tcs s1)
         = (run K tcs s1,
            Some (if sender' = owner (run K tcs s1) then Cannot_rewrite_merkle_root
                  else Ownable_caller_is_not_the_owner))"
    by (rule transact_Inl)
  from r1 e1 r2 t show "monthMerkleRoots s1 m = rootX \<and> escrow s1 = escrow s + int (unat a)
     \<and> monthMerkleRoots (run K tcs s1) m = rootX
     \<and> transact (seedAllocations T' sender' m rootY b) (run K tcs s1)
         = (run K tcs s1,
            Some (if sender' = owner (run K tcs s1) then Cannot_rewrite_merkle_root
                  else Ownable_caller_is_not_the_owner))"
    by blast
qed

lemma constructor_simps:
  "owner (constructor d t) = d" "this_address (constructor d t) = t"
  "monthMerkleRoots (constructor d t) m = 0" "claimed (constructor d t) m a = False"
  "token_calls (constructor d t) = []" "events (constructor d t) = []"
  by (simp_all add: constructor_def)

lemma accepting_simps:
  "token_transfer accepting s r a = Some True"
  "token_transferFrom accepting s x y a = Some True"
  by (simp_all add: accepting_def)

theorem root_immutable_once_nonzero_witness:
  "(\<exists>s1. seedAllocations accepting 1 1 107 1000 (constructor 1 2) = Inr s1
      \<and> monthMerkleRoots s1 1 = 107 \<and> escrow s1 = 1000
      \<and> transact (seedAllocations accepting 1 1 5 500) s1 = (s1, Some Cannot_rewrite_merkle_root)
      \<and> transact (seedAllocations accepting 9 1 5 500) s1
          = (s1, Some Ownable_caller_is_not_the_owner))"
proof -
  let ?s0 = "constructor 1 2"
  have "\<forall>s'. token_transferFrom accepting s' 1 (this_address ?s0) 1000 = Some True"
    by (simp add: accepting_simps)
  then obtain s1 where ok: "seedAllocations accepting 1 1 107 1000 ?s0 = Inr s1"
    using seedAllocations_accepted[of 1 ?s0 1 accepting 1000 107]
    by (simp add: constructor_simps)
  note main = root_immutable_once_nonzero[of accepting 1 1 107 1000 ?s0 s1 demo_crypto "[]" accepting _ 5 500]
  have nz: "(107 :: bytes32) \<noteq> 0" by simp
  from seedAllocations_Inr[OF ok] have "owner s1 = owner ?s0" by auto
  then have ow: "owner s1 = 1" by (simp add: constructor_simps)
  from main[of 1] ok nz ow have a: "monthMerkleRoots s1 1 = 107 \<and> escrow s1 = 1000
      \<and> transact (seedAllocations accepting 1 1 5 500) s1 = (s1, Some Cannot_rewrite_merkle_root)"
    by (simp add: run_def constructor_simps escrow_def paid_out_def)
  from main[of 9] ok nz ow have b: "transact (seedAllocations accepting 9 1 5 500) s1
          = (s1, Some Ownable_caller_is_not_the_owner)"
    by (simp add: run_def constructor_simps)
  from ok a b show ?thesis by blast
qed

lemma zero_seeded_eq:
  "seedAllocations accepting 1 1 0 1000 (constructor 1 2)
     = Inr ((constructor 1 2)\<lparr>monthMerkleRoots := (monthMerkleRoots (constructor 1 2))(1 := 0),
            token_calls := token_calls (constructor 1 2) @ [TransferFrom 1 (this_address (constructor 1 2)) 1000]\<rparr>)"
  by (intro seedAllocations_accepted) (simp_all add: constructor_simps accepting_simps)

text \<open>
  C2 as stated fails for the zero root: the owner seeds period 1 with the root 0 and 1000
  tokens, which succeeds; a second seeding of period 1 with the root 5 and 500 tokens
  succeeds too; the stored root is then 5 and the escrow 1500.
\<close>

theorem root_rewritten_after_zero_seed_counterexample:
  "snd (transact (seedAllocations accepting 1 1 0 1000) (constructor 1 2)) = None
   \<and> monthMerkleRoots zero_seeded 1 = 0 \<and> escrow zero_seeded = 1000
   \<and> snd (transact (seedAllocations accepting 1 1 5 500) zero_seeded) = None
   \<and> monthMerkleRoots reseeded 1 = 5 \<and> escrow reseeded = 1500"
proof -
  have z: "zero_seeded = (constructor 1 2)\<lparr>monthMerkleRoots := (monthMerkleRoots (constructor 1 2))(1 := 0),
            token_calls := [TransferFrom 1 2 1000]\<rparr>"
    unfolding zero_seeded_def transact_def zero_seeded_eq by (simp add: constructor_simps)
  have zs: "owner zero_seeded = 1" "monthMerkleRoots zero_seeded 1 = 0" "this_address zero_seeded = 2"
     "token_calls zero_seeded = [TransferFrom 1 2 1000]"
    unfolding z by (simp_all add: constructor_simps)
  have r: "seedAllocations accepting 1 1 5 500 zero_seeded
     = Inr (zero_seeded\<lparr>monthMerkleRoots := (monthMerkleRoots zero_seeded)(1 := 5),
            token_calls := token_calls zero_seeded @ [TransferFrom 1 (this_address zero_seeded) 500]\<rparr>)"
    by (intro seedAllocations_accepted) (simp_all add: zs accepting_simps)
  have 1: "snd (transact (seedAllocations accepting 1 1 0 1000) (constructor 1 2)) = None"
    unfolding transact_def zero_seeded_eq by simp
  have 2: "escrow zero_seeded = 1000" by (simp add: escrow_def paid_out_def zs)
  have 3: "snd (transact (seedAllocations accepting 1 1 5 500) zero_seeded) = None"
    unfolding transact_def r by simp
  have 4: "monthMerkleRoots reseeded 1 = 5 \<and> escrow reseeded = 1500"
    unfolding reseeded_def transact_def r by (simp add: escrow_def paid_out_def zs)
  from 1 zs(2) 2 3 4 show ?thesis by blast
qed

text \<open>
  C9. For the owner, \<^verbatim>\<open>seedAllocations\<close> reverts with the rewrite error exactly when the
  stored root of the period is not zero. So a period seeded with the zero root still counts
  as unseeded: its stored root is 0, and a later seeding of the same period by the owner,
  with a token that lets the transfer through, succeeds and sets the new root.
\<close>

theorem seed_rejected_iff_root_nonzero:
  "(sender = owner s \<longrightarrow>
      (seedAllocations T sender m r a s = Inl Cannot_rewrite_merkle_root)
        = (monthMerkleRoots s m \<noteq> 0))
   \<and> (seedAllocations T sender m 0 a s = Inr s1
        \<and> (\<forall>s'. token_transferFrom T' s' sender (this_address s) b = Some True)
      \<longrightarrow> monthMerkleRoots s1 m = 0
          \<and> (\<exists>s2. seedAllocations T' sender m r b s1 = Inr s2 \<and> monthMerkleRoots s2 m = r))"
proof (intro conjI impI)
  assume "sender = owner s"
  then show "(seedAllocations T sender m r a s = Inl Cannot_rewrite_merkle_root)
        = (monthMerkleRoots s m \<noteq> 0)"
    by (auto simp: seedAllocations_def Let_def split: option.splits)
next
  assume a: "seedAllocations T sender m 0 a s = Inr s1
        \<and> (\<forall>s'. token_transferFrom T' s' sender (this_address s) b = Some True)"
  then have ok: "seedAllocations T sender m 0 a s = Inr s1"
    and pay: "\<forall>s'. token_transferFrom T' s' sender (this_address s) b = Some True"
    by blast+
  from seedAllocations_Inr[OF ok] have ow: "sender = owner s"
    and s1: "s1 = s\<lparr>monthMerkleRoots := (monthMerkleRoots s)(m := 0),
            token_calls := token_calls s @ [TransferFrom sender (this_address s) a]\<rparr>"
    by blast+
  have r1: "monthMerkleRoots s1 m = 0" and o1: "sender = owner s1"
    and t1: "this_address s1 = this_address s"
    unfolding s1 using ow by simp_all
  have "seedAllocations T' sender m r b s1
     = Inr (s1\<lparr>monthMerkleRoots := (monthMerkleRoots s1)(m := r),
            token_calls := token_calls s1 @ [TransferFrom sender (this_address s1) b]\<rparr>)"
    using seedAllocations_accepted[of sender s1 m T' b r] o1 r1 pay t1 by simp
  then show "\<exists>s2. seedAllocations T' sender m r b s1 = Inr s2 \<and> monthMerkleRoots s2 m = r"
    by simp
  show "monthMerkleRoots s1 m = 0" by (rule r1)
qed

theorem seed_rejected_iff_root_nonzero_witness:
  "seedAllocations accepting 1 1 5 500 seeded = Inl Cannot_rewrite_merkle_root
   \<and> monthMerkleRoots seeded 1 \<noteq> 0
   \<and> seedAllocations accepting 1 3 5 500 seeded \<noteq> Inl Cannot_rewrite_merkle_root
   \<and> monthMerkleRoots seeded 3 = 0
   \<and> (\<exists>s1. seedAllocations accepting 1 1 0 1000 (constructor 1 2) = Inr s1
        \<and> monthMerkleRoots s1 1 = 0
        \<and> (\<exists>s2. seedAllocations accepting 1 1 5 500 s1 = Inr s2 \<and> monthMerkleRoots s2 1 = 5))"
proof -
  have r: "monthMerkleRoots seeded 1 \<noteq> 0" "monthMerkleRoots seeded 3 = 0" "1 = owner seeded"
    by (simp_all add: seeded_def constructor_def)
  have a: "seedAllocations accepting 1 1 5 500 seeded = Inl Cannot_rewrite_merkle_root"
    using seed_rejected_iff_root_nonzero[of 1 seeded accepting 1 5 500] r by blast
  have b: "seedAllocations accepting 1 3 5 500 seeded \<noteq> Inl Cannot_rewrite_merkle_root"
    using seed_rejected_iff_root_nonzero[of 1 seeded accepting 3 5 500] r by blast
  have pay: "\<forall>s'. token_transferFrom accepting s' 1 (this_address (constructor 1 2)) 500 = Some True"
    by (simp add: accepting_simps)
  obtain s1 where ok: "seedAllocations accepting 1 1 0 1000 (constructor 1 2) = Inr s1"
    using zero_seeded_eq by blast
  have c: "monthMerkleRoots s1 1 = 0
        \<and> (\<exists>s2. seedAllocations accepting 1 1 5 500 s1 = Inr s2 \<and> monthMerkleRoots s2 1 = 5)"
    using seed_rejected_iff_root_nonzero[of 1 "constructor 1 2" accepting 1 5 1000 s1 accepting 500] ok pay
    by blast
  from a r(1) b r(2) ok c show ?thesis by blast
qed

lemma claimMonths_loop_zero:
  "distinct (map month cs) \<Longrightarrow>
   \<forall>c \<in> set cs. \<not> claimed s (month c) lp \<and> balance c = 0
       \<and> verifyClaim K lp (month c) 0 (merkleProof c) s \<Longrightarrow>
   claimMonths_loop K lp cs 0 s
     = Inr (0, s\<lparr>claimed := (\<lambda>m a. claimed s m a \<or> (a = lp \<and> m \<in> month ` set cs))\<rparr>)"
proof -
  assume d: "distinct (map month cs)"
    and all: "\<forall>c \<in> set cs. \<not> claimed s (month c) lp \<and> balance c = 0
       \<and> verifyClaim K lp (month c) 0 (merkleProof c) s"
  have z: "sum_list (map (\<lambda>c. unat (balance c)) cs) = 0" using all by simp
  have b: "unat (0 :: uint) + sum_list (map (\<lambda>c. unat (balance c)) cs) < 2 ^ 256"
    unfolding z by simp
  have v: "\<forall>c \<in> set cs. \<not> claimed s (month c) lp
       \<and> verifyClaim K lp (month c) (balance c) (merkleProof c) s"
    using all by simp
  have "\<exists>t' s'. claimMonths_loop K lp cs 0 s = Inr (t', s')"
    using d v b by (rule loop_succeeds)
  then obtain t' s' where l: "claimMonths_loop K lp cs 0 s = Inr (t', s')" by blast
  from loop_Inr[OF l] z have "unat t' = 0"
    and "s' = s\<lparr>claimed := (\<lambda>m a. claimed s m a \<or> (a = lp \<and> m \<in> month ` set cs))\<rparr>"
    by simp_all
  then show ?thesis using l by (simp add: unat_eq_0)
qed

text \<open>
  C10. A claim for the amount 0 with a valid proof, on an unclaimed pair, succeeds whatever
  the token would do: the pair is marked claimed, no event is emitted and no token call is
  made. The same holds for a batch whose amounts are all 0 (the only way for the checked sum
  to be 0): every pair is marked, nothing else changes.
\<close>

theorem zero_amount_claim_pays_nothing:
  "(\<not> claimed s m lp \<and> verifyClaim K lp m 0 prf s \<longrightarrow>
      claimMonth K T lp m 0 prf s = Inr (mark_claimed m lp s)
      \<and> claimed (mark_claimed m lp s) m lp
      \<and> events (mark_claimed m lp s) = events s
      \<and> token_calls (mark_claimed m lp s) = token_calls s)
   \<and> (distinct (map month cs)
        \<and> (\<forall>c \<in> set cs. \<not> claimed s (month c) lp \<and> balance c = 0
              \<and> verifyClaim K lp (month c) 0 (merkleProof c) s)
      \<longrightarrow> claimMonths K T lp cs s
            = Inr (s\<lparr>claimed := (\<lambda>m a. claimed s m a \<or> (a = lp \<and> m \<in> month ` set cs))\<rparr>))"
proof (intro conjI impI)
  assume "\<not> claimed s m lp \<and> verifyClaim K lp m 0 prf s"
  then show "claimMonth K T lp m 0 prf s = Inr (mark_claimed m lp s)"
    by (simp add: claimMonth_def disburse_zero)
  show "claimed (mark_claimed m lp s) m lp" by (simp add: mark_claimed_def)
  show "events (mark_claimed m lp s) = events s" by (simp add: mark_claimed_def)
  show "token_calls (mark_claimed m lp s) = token_calls s" by (simp add: mark_claimed_def)
next
  assume "distinct (map month cs)
        \<and> (\<forall>c \<in> set cs. \<not> claimed s (month c) lp \<and> balance c = 0
              \<and> verifyClaim K lp (month c) 0 (merkleProof c) s)"
  then have "claimMonths_loop K lp cs 0 s
     = Inr (0, s\<lparr>claimed := (\<lambda>m a. claimed s m a \<or> (a = lp \<and> m \<in> month ` set cs))\<rparr>)"
    by (intro claimMonths_loop_zero) blast+
  then show "claimMonths K T lp cs s
            = Inr (s\<lparr>claimed := (\<lambda>m a. claimed s m a \<or> (a = lp \<and> m \<in> month ` set cs))\<rparr>)"
    by (simp add: claimMonths_def disburse_zero)
qed

lemma seeded_roots:
  "monthMerkleRoots seeded 1 = 107" "monthMerkleRoots seeded 2 = 107"
  "monthMerkleRoots seeded 3 = 0" "monthMerkleRoots seeded 5 = 7" "monthMerkleRoots seeded 6 = 7"
  by (simp_all add: seeded_def constructor_def)

lemma demo_verify_zero:
  "verifyClaim demo_crypto 7 5 0 [] seeded" "verifyClaim demo_crypto 7 6 0 [] seeded"
  by (simp_all add: verifyClaim_def MerkleProof_verify_def demo_crypto_def seeded_roots)

lemma demo_verify_batch:
  "verifyClaim demo_crypto 7 2 100 [] seeded" "\<not> verifyClaim demo_crypto 7 3 50 [] seeded"
  by (simp_all add: verifyClaim_def MerkleProof_verify_def demo_crypto_def seeded_roots)

theorem zero_amount_claim_pays_nothing_witness:
  "\<not> claimed seeded 5 7 \<and> verifyClaim demo_crypto 7 5 0 [] seeded
   \<and> claimMonth demo_crypto refusing 7 5 0 [] seeded = Inr (mark_claimed 5 7 seeded)
   \<and> claimed (mark_claimed 5 7 seeded) 5 7
   \<and> events (mark_claimed 5 7 seeded) = [] \<and> token_calls (mark_claimed 5 7 seeded) = []
   \<and> (\<exists>s1. claimMonths demo_crypto refusing 7 zero_batch seeded = Inr s1
         \<and> claimed s1 5 7 \<and> claimed s1 6 7 \<and> events s1 = [] \<and> token_calls s1 = [])"
proof -
  note main = zero_amount_claim_pays_nothing[of seeded 5 7 demo_crypto "[]" refusing zero_batch]
  have pre1: "\<not> claimed seeded 5 7 \<and> verifyClaim demo_crypto 7 5 0 [] seeded"
    using demo_verify_zero by (simp add: seeded_simps)
  have pre2: "distinct (map month zero_batch)
        \<and> (\<forall>c \<in> set zero_batch. \<not> claimed seeded (month c) 7 \<and> balance c = 0
              \<and> verifyClaim demo_crypto 7 (month c) 0 (merkleProof c) seeded)"
    using demo_verify_zero by (simp add: zero_batch_def seeded_simps)
  from main pre1 have a: "claimMonth demo_crypto refusing 7 5 0 [] seeded = Inr (mark_claimed 5 7 seeded)
      \<and> claimed (mark_claimed 5 7 seeded) 5 7
      \<and> events (mark_claimed 5 7 seeded) = events seeded
      \<and> token_calls (mark_claimed 5 7 seeded) = token_calls seeded"
    by blast
  from main pre2 have "claimMonths demo_crypto refusing 7 zero_batch seeded
            = Inr (seeded\<lparr>claimed := (\<lambda>m a. claimed seeded m a \<or> (a = 7 \<and> m \<in> month ` set zero_batch))\<rparr>)"
    by blast
  then have b: "\<exists>s1. claimMonths demo_crypto refusing 7 zero_batch seeded = Inr s1
         \<and> claimed s1 5 7 \<and> claimed s1 6 7 \<and> events s1 = [] \<and> token_calls s1 = []"
    by (simp add: zero_batch_def seeded_simps)
  from pre1 a b show ?thesis by (simp add: seeded_simps)
qed

lemma disburse_cong:
  "\<forall>r a. token_transfer T (s\<lparr>events := events s @ [Claimed lp b]\<rparr>) r a
          = token_transfer T' (s\<lparr>events := events s @ [Claimed lp b]\<rparr>) r a \<Longrightarrow>
   disburse T lp b s = disburse T' lp b s"
  by (simp add: disburse_def Let_def)

text \<open>
  C4. The token is called only in a state where every pair being paid is already marked
  claimed: the outcome of \<^verbatim>\<open>claimMonth\<close> is the same for any two tokens that agree on the
  states in which the pair is claimed, whatever they do in other states, and the outcome of
  \<^verbatim>\<open>claimMonths\<close> is the same for any two tokens that agree on the states in which every
  pair of the batch is claimed. A call back into the ledger during the transfer therefore
  finds the pair claimed.
\<close>

theorem claimed_before_transfer:
  "((\<forall>s' r a. claimed s' m lp \<longrightarrow> token_transfer T s' r a = token_transfer T' s' r a)
      \<longrightarrow> claimMonth K T lp m b prf s = claimMonth K T' lp m b prf s)
   \<and> ((\<forall>s' r a. (\<forall>c \<in> set cs. claimed s' (month c) lp)
                   \<longrightarrow> token_transfer T s' r a = token_transfer T' s' r a)
      \<longrightarrow> claimMonths K T lp cs s = claimMonths K T' lp cs s)"
proof (intro conjI impI)
  assume agree: "\<forall>s' r a. claimed s' m lp \<longrightarrow> token_transfer T s' r a = token_transfer T' s' r a"
  let ?s1 = "mark_claimed m lp s"
  have "claimed (?s1\<lparr>events := events ?s1 @ [Claimed lp b]\<rparr>) m lp"
    by (simp add: mark_claimed_def)
  with agree have "disburse T lp b ?s1 = disburse T' lp b ?s1"
    by (intro disburse_cong) blast
  then show "claimMonth K T lp m b prf s = claimMonth K T' lp m b prf s"
    by (simp add: claimMonth_def)
next
  assume agree: "\<forall>s' r a. (\<forall>c \<in> set cs. claimed s' (month c) lp)
                   \<longrightarrow> token_transfer T s' r a = token_transfer T' s' r a"
  show "claimMonths K T lp cs s = claimMonths K T' lp cs s"
  proof (cases "claimMonths_loop K lp cs 0 s")
    case (Inl e)
    then show ?thesis by (simp add: claimMonths_def)
  next
    case (Inr p)
    obtain total s1 where p: "p = (total, s1)" by (cases p)
    from loop_Inr[OF Inr[unfolded p]] have
      "s1 = s\<lparr>claimed := (\<lambda>m a. claimed s m a \<or> (a = lp \<and> m \<in> month ` set cs))\<rparr>"
      by blast
    then have "\<forall>c \<in> set cs. claimed (s1\<lparr>events := events s1 @ [Claimed lp total]\<rparr>) (month c) lp"
      by simp
    with agree have "disburse T lp total s1 = disburse T' lp total s1"
      by (intro disburse_cong) blast
    then show ?thesis using Inr p by (simp add: claimMonths_def)
  qed
qed

theorem claimed_before_transfer_witness:
  "token_transfer (flag_probe [1] 7) seeded 7 100 = None
   \<and> claimMonth demo_crypto (flag_probe [1] 7) 7 1 100 [] seeded
       = claimMonth demo_crypto accepting 7 1 100 [] seeded
   \<and> (\<exists>s1. claimMonth demo_crypto accepting 7 1 100 [] seeded = Inr s1)
   \<and> token_transfer (flag_probe [1, 2] 7) (mark_claimed 1 7 seeded) 7 200 = None
   \<and> claimMonths demo_crypto (flag_probe [1, 2] 7) 7 demo_batch seeded
       = claimMonths demo_crypto accepting 7 demo_batch seeded
   \<and> (\<exists>s1. claimMonths demo_crypto accepting 7 demo_batch seeded = Inr s1)"
proof -
  have h1: "\<forall>s' r a. claimed s' 1 7 \<longrightarrow>
      token_transfer (flag_probe [1] 7) s' r a = token_transfer accepting s' r a"
    by (simp add: flag_probe_def accepting_def)
  have h2: "\<forall>s' r a. (\<forall>c \<in> set demo_batch. claimed s' (month c) 7) \<longrightarrow>
      token_transfer (flag_probe [1, 2] 7) s' r a = token_transfer accepting s' r a"
    by (simp add: flag_probe_def accepting_def demo_batch_def)
  have a: "claimMonth demo_crypto (flag_probe [1] 7) 7 1 100 [] seeded
       = claimMonth demo_crypto accepting 7 1 100 [] seeded"
    using claimed_before_transfer[of 1 7 "flag_probe [1] 7" accepting demo_crypto 100 "[]" seeded "[]"] h1
    by blast
  have b: "claimMonths demo_crypto (flag_probe [1, 2] 7) 7 demo_batch seeded
       = claimMonths demo_crypto accepting 7 demo_batch seeded"
    using claimed_before_transfer[of 1 7 "flag_probe [1, 2] 7" accepting demo_crypto 100 "[]" seeded demo_batch] h2
    by blast
  have c: "\<exists>s1. claimMonth demo_crypto accepting 7 1 100 [] seeded = Inr s1"
    using claimMonth_accepting[of seeded 1 7 demo_crypto 100 "[]"] demo_verify
    by (simp add: seeded_simps)
  have d: "\<exists>s1. claimMonths demo_crypto accepting 7 demo_batch seeded = Inr s1"
    using demo_verify demo_verify_batch
    by (simp add: claimMonths_def demo_batch_def seeded_simps mark_claimed_def verifyClaim_def
        disburse_def accepting_def Let_def)
  have e: "token_transfer (flag_probe [1] 7) seeded 7 100 = None"
    by (simp add: flag_probe_def seeded_simps)
  have f: "token_transfer (flag_probe [1, 2] 7) (mark_claimed 1 7 seeded) 7 200 = None"
    by (simp add: flag_probe_def seeded_simps mark_claimed_def)
  from a b c d e f show ?thesis by blast
qed

lemma claimMonths_succeeds:
  assumes d: "distinct (map month cs)"
    and v: "\<forall>c \<in> set cs. \<not> claimed s (month c) lp
              \<and> verifyClaim K lp (month c) (balance c) (merkleProof c) s"
    and b: "sum_list (map (\<lambda>c. unat (balance c)) cs) < 2 ^ 256"
    and pay: "\<forall>s' a. token_transfer T s' lp a = Some True"
  shows "\<exists>sB. claimMonths K T lp cs s = Inr sB"
proof -
  have "unat (0 :: uint) + sum_list (map (\<lambda>c. unat (balance c)) cs) < 2 ^ 256"
    using b by simp
  with d v obtain t' s' where "claimMonths_loop K lp cs 0 s = Inr (t', s')"
    using loop_succeeds[of cs s lp K 0] by blast
  then show ?thesis using pay by (simp add: claimMonths_def disburse_def Let_def)
qed

lemma loop_overflows:
  "distinct (map month cs) \<Longrightarrow>
   \<forall>c \<in> set cs. \<not> claimed s (month c) lp \<and> verifyClaim K lp (month c) (balance c) (merkleProof c) s \<Longrightarrow>
   2 ^ 256 \<le> unat t + sum_list (map (\<lambda>c. unat (balance c)) cs) \<Longrightarrow>
   claimMonths_loop K lp cs t s = Inl Panic_0x11"
proof (induction cs arbitrary: t s)
  case Nil
  then show ?case using unat_uint_less[of t] by simp
next
  case (Cons c cs)
  let ?s1 = "mark_claimed (month c) lp s"
  show ?case
  proof (cases "2 ^ 256 \<le> unat t + unat (balance c)")
    case True
    then show ?thesis using Cons.prems(2) by simp
  next
    case False
    then have ua: "unat (t + balance c) = unat t + unat (balance c)"
      by (simp add: unat_add_lem[THEN iffD1])
    have a: "distinct (map month cs)" using Cons.prems(1) by simp
    have b: "\<forall>c' \<in> set cs. \<not> claimed ?s1 (month c') lp
                \<and> verifyClaim K lp (month c') (balance c') (merkleProof c') ?s1"
    proof
      fix c' assume c': "c' \<in> set cs"
      then have "month c' \<in> month ` set cs" by (rule imageI)
      moreover have "month c \<notin> month ` set cs" using Cons.prems(1) by simp
      ultimately have "month c' \<noteq> month c" by metis
      then show "\<not> claimed ?s1 (month c') lp
                \<and> verifyClaim K lp (month c') (balance c') (merkleProof c') ?s1"
        using Cons.prems(2) c' by (simp add: mark_claimed_def verifyClaim_def)
    qed
    have c: "2 ^ 256 \<le> unat (t + balance c) + sum_list (map (\<lambda>c. unat (balance c)) cs)"
      using Cons.prems(3) ua by simp
    from Cons.IH[OF a b c] show ?thesis using Cons.prems(2) False by simp
  qed
qed

lemma big_facts:
  "unat big_amount = 2 ^ 255"
  "verifyClaim demo_crypto 7 1 big_amount [] big_seeded"
  "verifyClaim demo_crypto 7 2 big_amount [] big_seeded"
  "\<not> claimed big_seeded m a"
  by (simp_all add: big_amount_def big_seeded_def constructor_def verifyClaim_def
      MerkleProof_verify_def demo_crypto_def)

text \<open>
  C3, as amended. \<^verbatim>\<open>claimMonths\<close> against the same claims made one by one with
  \<^verbatim>\<open>claimMonth\<close>. If some entry is already claimed or has a proof that does not verify, the
  batch reverts and the state is as before: no pair is marked and no transfer made. If the
  batch succeeds, one transfer of the sum of the amounts was made (none when the sum is 0),
  exactly the pairs of the batch were marked, and the one-by-one claims succeed as well (with
  a token that pays) and end with the same claimed flags, the same roots and the same total
  paid out. If the one-by-one claims succeed, the sum of the amounts is below \<open>2^256\<close> and
  the token pays, then the batch succeeds with the same claimed flags, roots and total paid
  out; so it does when every entry is unclaimed with a valid proof, the periods are distinct,
  the sum is below \<open>2^256\<close> and the token pays. When every entry is unclaimed with a valid
  proof, the periods are distinct and the sum of the amounts reaches \<open>2^256\<close>, the batch
  reverts with the arithmetic panic and the state is as before.
\<close>

theorem claimBatch_matches_singles_when_sum_fits:
  "(c \<in> set cs
      \<and> (claimed s (month c) lp \<or> \<not> verifyClaim K lp (month c) (balance c) (merkleProof c) s)
     \<longrightarrow> (\<exists>e. transact (claimMonths K T lp cs) s = (s, Some e)))
   \<and> (claimMonths K T lp cs s = Inr sB \<longrightarrow>
        (\<exists>total. unat total = sum_list (map (\<lambda>c. unat (balance c)) cs)
            \<and> token_calls sB = token_calls s @ (if 0 < total then [Transfer lp total] else []))
        \<and> (\<forall>m a. claimed sB m a = (claimed s m a \<or> (a = lp \<and> m \<in> month ` set cs)))
        \<and> (\<exists>sS. claimMonth_each K accepting lp cs s = Inr sS
              \<and> claimed sS = claimed sB \<and> monthMerkleRoots sS = monthMerkleRoots sB
              \<and> paid_out sS = paid_out sB))
   \<and> (claimMonth_each K T' lp cs s = Inr sS
        \<and> sum_list (map (\<lambda>c. unat (balance c)) cs) < 2 ^ 256
        \<and> (\<forall>s' a. token_transfer T s' lp a = Some True)
      \<longrightarrow> (\<exists>sB. claimMonths K T lp cs s = Inr sB
            \<and> claimed sB = claimed sS \<and> monthMerkleRoots sB = monthMerkleRoots sS
            \<and> paid_out sB = paid_out sS))
   \<and> (distinct (map month cs)
        \<and> (\<forall>c \<in> set cs. \<not> claimed s (month c) lp
              \<and> verifyClaim K lp (month c) (balance c) (merkleProof c) s)
        \<and> sum_list (map (\<lambda>c. unat (balance c)) cs) < 2 ^ 256
        \<and> (\<forall>s' a. token_transfer T s' lp a = Some True)
      \<longrightarrow> (\<exists>sB. claimMonths K T lp cs s = Inr sB))
   \<and> (distinct (map month cs)
        \<and> (\<forall>c \<in> set cs. \<not> claimed s (month c) lp
              \<and> verifyClaim K lp (month c) (balance c) (merkleProof c) s)
        \<and> 2 ^ 256 \<le> sum_list (map (\<lambda>c. unat (balance c)) cs)
      \<longrightarrow> transact (claimMonths K T lp cs) s = (s, Some Panic_0x11))"
proof -
  have succ: "\<exists>total. unat total = sum_list (map (\<lambda>c. unat (balance c)) cs)
            \<and> token_calls sB = token_calls s @ (if 0 < total then [Transfer lp total] else [])
            \<and> claimed sB = (\<lambda>m a. claimed s m a \<or> (a = lp \<and> m \<in> month ` set cs))
            \<and> monthMerkleRoots sB = monthMerkleRoots s
            \<and> paid_out sB = paid_out s + sum_list (map (\<lambda>c. unat (balance c)) cs)
            \<and> distinct (map month cs)
            \<and> (\<forall>c \<in> set cs. \<not> claimed s (month c) lp
                  \<and> verifyClaim K lp (month c) (balance c) (merkleProof c) s)"
    if ok: "claimMonths K T lp cs s = Inr sB" for T sB
  proof -
    from ok obtain total s1 where l: "claimMonths_loop K lp cs 0 s = Inr (total, s1)"
      and dis: "disburse T lp total s1 = Inr sB"
      by (auto simp: claimMonths_def split: sum.splits)
    from loop_Inr[OF l] have
      s1: "s1 = s\<lparr>claimed := (\<lambda>m a. claimed s m a \<or> (a = lp \<and> m \<in> month ` set cs))\<rparr>"
      and tot: "unat total = sum_list (map (\<lambda>c. unat (balance c)) cs)"
      and d: "distinct (map month cs)"
      and v: "\<forall>c \<in> set cs. \<not> claimed s (month c) lp
                  \<and> verifyClaim K lp (month c) (balance c) (merkleProof c) s"
      by simp_all
    note sB = disburse_Inr[OF dis]
    have tc: "token_calls sB = token_calls s @ (if 0 < total then [Transfer lp total] else [])"
      by (subst sB) (simp add: s1)
    have cl: "claimed sB = (\<lambda>m a. claimed s m a \<or> (a = lp \<and> m \<in> month ` set cs))"
      by (subst sB) (simp add: s1)
    have ro: "monthMerkleRoots sB = monthMerkleRoots s"
      by (subst sB) (simp add: s1)
    have po: "paid_out sB = paid_out s + sum_list (map (\<lambda>c. unat (balance c)) cs)"
      unfolding paid_out_def tc using tot unat_pos_zero[of total] by simp
    from tot tc cl ro po d v show ?thesis by blast
  qed
  have 1: "\<exists>e. transact (claimMonths K T lp cs) s = (s, Some e)"
    if bad: "c \<in> set cs
      \<and> (claimed s (month c) lp \<or> \<not> verifyClaim K lp (month c) (balance c) (merkleProof c) s)"
  proof -
    from bad obtain e where "claimMonths_loop K lp cs 0 s = Inl e"
      using loop_fails[of c cs s lp K 0] by blast
    then have "claimMonths K T lp cs s = Inl e" by (simp add: claimMonths_def)
    then show ?thesis by (simp add: transact_def)
  qed
  have 2: "(\<exists>total. unat total = sum_list (map (\<lambda>c. unat (balance c)) cs)
            \<and> token_calls sB = token_calls s @ (if 0 < total then [Transfer lp total] else []))
        \<and> (\<forall>m a. claimed sB m a = (claimed s m a \<or> (a = lp \<and> m \<in> month ` set cs)))
        \<and> (\<exists>sS. claimMonth_each K accepting lp cs s = Inr sS
              \<and> claimed sS = claimed sB \<and> monthMerkleRoots sS = monthMerkleRoots sB
              \<and> paid_out sS = paid_out sB)"
    if ok: "claimMonths K T lp cs s = Inr sB"
  proof -
    from succ[OF ok] obtain total where
      tot: "unat total = sum_list (map (\<lambda>c. unat (balance c)) cs)"
      and tc: "token_calls sB = token_calls s @ (if 0 < total then [Transfer lp total] else [])"
      and cl: "claimed sB = (\<lambda>m a. claimed s m a \<or> (a = lp \<and> m \<in> month ` set cs))"
      and ro: "monthMerkleRoots sB = monthMerkleRoots s"
      and po: "paid_out sB = paid_out s + sum_list (map (\<lambda>c. unat (balance c)) cs)"
      and d: "distinct (map month cs)"
      and v: "\<forall>c \<in> set cs. \<not> claimed s (month c) lp
                  \<and> verifyClaim K lp (month c) (balance c) (merkleProof c) s"
      by blast
    from each_succeeds[OF d v] obtain sS where e: "claimMonth_each K accepting lp cs s = Inr sS"
      by blast
    from each_Inr[OF e] cl ro po have
      "claimed sS = claimed sB \<and> monthMerkleRoots sS = monthMerkleRoots sB
              \<and> paid_out sS = paid_out sB"
      by simp
    with e tot tc cl show ?thesis by auto
  qed
  have 3: "\<exists>sB. claimMonths K T lp cs s = Inr sB
            \<and> claimed sB = claimed sS \<and> monthMerkleRoots sB = monthMerkleRoots sS
            \<and> paid_out sB = paid_out sS"
    if h: "claimMonth_each K T' lp cs s = Inr sS
        \<and> sum_list (map (\<lambda>c. unat (balance c)) cs) < 2 ^ 256
        \<and> (\<forall>s' a. token_transfer T s' lp a = Some True)"
  proof -
    from h have e: "claimMonth_each K T' lp cs s = Inr sS"
      and b: "sum_list (map (\<lambda>c. unat (balance c)) cs) < 2 ^ 256"
      and pay: "\<forall>s' a. token_transfer T s' lp a = Some True"
      by blast+
    note E = each_Inr[OF e]
    from E have d: "distinct (map month cs)"
      and v: "\<forall>c \<in> set cs. \<not> claimed s (month c) lp
                  \<and> verifyClaim K lp (month c) (balance c) (merkleProof c) s"
      by blast+
    from claimMonths_succeeds[OF d v b pay] obtain sB where ok: "claimMonths K T lp cs s = Inr sB"
      by blast
    from succ[OF ok] E have "claimed sB = claimed sS \<and> monthMerkleRoots sB = monthMerkleRoots sS
            \<and> paid_out sB = paid_out sS"
      by auto
    with ok show ?thesis by blast
  qed
  have 4: "\<exists>sB. claimMonths K T lp cs s = Inr sB"
    if h: "distinct (map month cs)
        \<and> (\<forall>c \<in> set cs. \<not> claimed s (month c) lp
              \<and> verifyClaim K lp (month c) (balance c) (merkleProof c) s)
        \<and> sum_list (map (\<lambda>c. unat (balance c)) cs) < 2 ^ 256
        \<and> (\<forall>s' a. token_transfer T s' lp a = Some True)"
    using h by (intro claimMonths_succeeds) blast+
  have 5: "transact (claimMonths K T lp cs) s = (s, Some Panic_0x11)"
    if h: "distinct (map month cs)
        \<and> (\<forall>c \<in> set cs. \<not> claimed s (month c) lp
              \<and> verifyClaim K lp (month c) (balance c) (merkleProof c) s)
        \<and> 2 ^ 256 \<le> sum_list (map (\<lambda>c. unat (balance c)) cs)"
  proof -
    from h have "2 ^ 256 \<le> unat (0 :: uint) + sum_list (map (\<lambda>c. unat (balance c)) cs)"
      by simp
    with h have "claimMonths_loop K lp cs 0 s = Inl Panic_0x11"
      by (intro loop_overflows) blast+
    then show ?thesis by (simp add: claimMonths_def transact_def)
  qed
  from 1 2 3 4 5 show ?thesis by blast
qed

theorem claimBatch_matches_singles_when_sum_fits_witness:
  "(\<exists>e. transact (claimMonths demo_crypto accepting 7 bad_batch) seeded = (seeded, Some e))
   \<and> (\<exists>sS sB. claimMonth_each demo_crypto accepting 7 demo_batch seeded = Inr sS
         \<and> claimMonths demo_crypto accepting 7 demo_batch seeded = Inr sB
         \<and> token_calls sB = [Transfer 7 200]
         \<and> claimed sB 1 7 \<and> claimed sB 2 7
         \<and> claimed sS = claimed sB \<and> paid_out sB = paid_out sS \<and> paid_out sS = 200)
   \<and> transact (claimMonths demo_crypto accepting 7 big_batch) big_seeded
       = (big_seeded, Some Panic_0x11)"
proof -
  let ?bad = "\<lparr>month = 3, balance = 50, merkleProof = []\<rparr>"
  have bad: "?bad \<in> set bad_batch
      \<and> (claimed seeded (month ?bad) 7
           \<or> \<not> verifyClaim demo_crypto 7 (month ?bad) (balance ?bad) (merkleProof ?bad) seeded)"
    using demo_verify_batch by (simp add: bad_batch_def)
  have a: "\<exists>e. transact (claimMonths demo_crypto accepting 7 bad_batch) seeded = (seeded, Some e)"
    using claimBatch_matches_singles_when_sum_fits[of ?bad bad_batch seeded 7 demo_crypto accepting] bad by blast
  have d: "distinct (map month demo_batch)" by (simp add: demo_batch_def)
  have v: "\<forall>c \<in> set demo_batch. \<not> claimed seeded (month c) 7
              \<and> verifyClaim demo_crypto 7 (month c) (balance c) (merkleProof c) seeded"
    using demo_verify demo_verify_batch by (simp add: demo_batch_def seeded_simps)
  from each_succeeds[OF d v] obtain sS where
    e: "claimMonth_each demo_crypto accepting 7 demo_batch seeded = Inr sS" by blast
  have su: "sum_list (map (\<lambda>c. unat (balance c)) demo_batch) = 200"
    by (simp add: demo_batch_def)
  have pay: "\<forall>s' a. token_transfer accepting s' 7 a = Some True" by (simp add: accepting_simps)
  have b: "sum_list (map (\<lambda>c. unat (balance c)) demo_batch) < 2 ^ 256"
    unfolding su by simp
  note main = claimBatch_matches_singles_when_sum_fits[of _ demo_batch seeded 7 demo_crypto accepting _ accepting sS]
  from main[THEN conjunct2, THEN conjunct2] e b pay obtain sB where
    ok: "claimMonths demo_crypto accepting 7 demo_batch seeded = Inr sB"
    and eq1: "claimed sB = claimed sS" and eq2: "paid_out sB = paid_out sS"
    by blast
  from main[of _ sB, THEN conjunct2, THEN conjunct1] ok obtain total :: uint where
    tot': "unat total = sum_list (map (\<lambda>c. unat (balance c)) demo_batch)"
    and tc: "token_calls sB = token_calls seeded @ (if 0 < total then [Transfer 7 total] else [])"
    and cl: "\<forall>m a. claimed sB m a = (claimed seeded m a \<or> (a = 7 \<and> m \<in> month ` set demo_batch))"
    by blast
  have tot: "unat total = 200" using tot' su by simp
  have "unat total = unat (200 :: uint)" using tot by simp
  then have t200: "total = 200" by (simp only: word_unat_eq_iff)
  have tc': "token_calls sB = [Transfer 7 200]" using tc t200 by (simp add: seeded_simps)
  have cl': "claimed sB 1 7 \<and> claimed sB 2 7" using cl by (simp add: demo_batch_def)
  have po: "paid_out sB = 200" using tc' by (simp add: paid_out_def)
  have po': "paid_out sS = 200" using po eq2 by simp
  from e ok tc' cl' eq1 eq2 po' have
    "\<exists>sS sB. claimMonth_each demo_crypto accepting 7 demo_batch seeded = Inr sS
         \<and> claimMonths demo_crypto accepting 7 demo_batch seeded = Inr sB
         \<and> token_calls sB = [Transfer 7 200]
         \<and> claimed sB 1 7 \<and> claimed sB 2 7
         \<and> claimed sS = claimed sB \<and> paid_out sB = paid_out sS \<and> paid_out sS = 200"
    by (intro exI[of _ sS] exI[of _ sB]) simp
  have bd: "distinct (map month big_batch)" by (simp add: big_batch_def)
  have bv: "\<forall>c \<in> set big_batch. \<not> claimed big_seeded (month c) 7
              \<and> verifyClaim demo_crypto 7 (month c) (balance c) (merkleProof c) big_seeded"
    using big_facts by (simp add: big_batch_def)
  have bo: "2 ^ 256 \<le> sum_list (map (\<lambda>c. unat (balance c)) big_batch)"
    by (simp add: big_batch_def big_facts(1))
  have ov: "transact (claimMonths demo_crypto accepting 7 big_batch) big_seeded
       = (big_seeded, Some Panic_0x11)"
    using claimBatch_matches_singles_when_sum_fits[of _ big_batch big_seeded 7 demo_crypto accepting]
      bd bv bo
    by blast
  with a \<open>\<exists>sS sB. claimMonth_each demo_crypto accepting 7 demo_batch seeded = Inr sS
         \<and> claimMonths demo_crypto accepting 7 demo_batch seeded = Inr sB
         \<and> token_calls sB = [Transfer 7 200]
         \<and> claimed sB 1 7 \<and> claimed sB 2 7
         \<and> claimed sS = claimed sB \<and> paid_out sB = paid_out sS \<and> paid_out sS = 200\<close>
  show ?thesis by blast
qed

text \<open>
  C3 as stated fails when the amounts of a batch add up to \<open>2^256\<close> or more: the two claims
  of \<open>2^255\<close> for the address 7 are unclaimed with valid proofs and succeed one by one, and
  the batch of the two reverts at \<^verbatim>\<open>totalBalance += claim.balance\<close>.
\<close>

theorem claimBatch_overflow_counterexample:
  "verifyClaim demo_crypto 7 1 big_amount [] big_seeded
   \<and> verifyClaim demo_crypto 7 2 big_amount [] big_seeded
   \<and> \<not> claimed big_seeded 1 7 \<and> \<not> claimed big_seeded 2 7
   \<and> \<not> isl (claimMonth_each demo_crypto accepting 7 big_batch big_seeded)
   \<and> transact (claimMonths demo_crypto accepting 7 big_batch) big_seeded
       = (big_seeded, Some Panic_0x11)"
proof -
  have d: "distinct (map month big_batch)" by (simp add: big_batch_def)
  have v: "\<forall>c \<in> set big_batch. \<not> claimed big_seeded (month c) 7
              \<and> verifyClaim demo_crypto 7 (month c) (balance c) (merkleProof c) big_seeded"
    using big_facts by (simp add: big_batch_def)
  from each_succeeds[OF d v] have 1: "\<not> isl (claimMonth_each demo_crypto accepting 7 big_batch big_seeded)"
    by auto
  have "2 ^ 256 \<le> unat (0 :: uint) + sum_list (map (\<lambda>c. unat (balance c)) big_batch)"
    by (simp add: big_batch_def big_facts(1))
  with d v have "claimMonths_loop demo_crypto 7 big_batch 0 big_seeded = Inl Panic_0x11"
    by (rule loop_overflows)
  then have 2: "transact (claimMonths demo_crypto accepting 7 big_batch) big_seeded
       = (big_seeded, Some Panic_0x11)"
    by (simp add: claimMonths_def transact_def)
  from big_facts 1 2 show ?thesis by blast
qed

lemma unat_add_checked:
  "unat (a :: uint) + unat (b :: uint) < 2 ^ 256 \<Longrightarrow> unat (a + b) = unat a + unat b"
  using unat_add_lem[of a b] by simp

lemma unat_max_uint: "unat (- 1 :: uint) = 2 ^ 256 - 1"
  by (simp add: unsigned_minus_1_eq_mask mask_eq_exp_minus_1)

declare claimStatus_loop.simps [simp del] merkleRoots_loop.simps [simp del]

lemma claimStatus_loop_result:
  "length arr = unat sz \<Longrightarrow> unat begin_m + unat sz \<le> 2 ^ 256 \<Longrightarrow> i \<le> sz \<Longrightarrow>
   claimStatus_loop s lp begin_m sz i arr
     = Inr (take (unat i) arr @ map (\<lambda>k. claimed s (begin_m + of_nat k) lp) [unat i..<unat sz])"
proof (induction s lp begin_m sz i arr rule: claimStatus_loop.induct)
  case (1 s lp begin_m sz i arr)
  show ?case
  proof (cases "i < sz")
    case False
    with "1.prems" have "i = sz" by simp
    with "1.prems" show ?thesis by (simp add: claimStatus_loop.simps[of s lp begin_m sz sz])
  next
    case True
    then have lt: "unat i < unat sz" by (simp add: word_less_nat_alt)
    have nov: "\<not> 2 ^ 256 \<le> unat begin_m + unat i" using lt "1.prems"(2) by simp
    have su: "unat (i + 1) = Suc (unat i)" using True by (rule unat_succ_below)
    have le: "i + 1 \<le> sz" using lt su by (simp add: word_le_nat_alt)
    let ?arr = "arr[unat i := claimed s (begin_m + i) lp]"
    have len: "length ?arr = unat sz" using "1.prems"(1) by simp
    have IH: "claimStatus_loop s lp begin_m sz (i + 1) ?arr
        = Inr (take (unat (i + 1)) ?arr
               @ map (\<lambda>k. claimed s (begin_m + of_nat k) lp) [unat (i + 1)..<unat sz])"
      using "1.IH"[OF True nov len "1.prems"(2) le] .
    have tk: "take (Suc (unat i)) ?arr = take (unat i) arr @ [claimed s (begin_m + i) lp]"
      using lt "1.prems"(1) by (simp add: take_Suc_conv_app_nth)
    have up: "[unat i..<unat sz] = unat i # [Suc (unat i)..<unat sz]"
      using lt by (simp add: upt_conv_Cons)
    have "claimStatus_loop s lp begin_m sz i arr = claimStatus_loop s lp begin_m sz (i + 1) ?arr"
      using True nov by (subst claimStatus_loop.simps) simp
    also have "\<dots> = Inr (take (unat i) arr
               @ map (\<lambda>k. claimed s (begin_m + of_nat k) lp) [unat i..<unat sz])"
      unfolding IH su tk up by simp
    finally show ?thesis .
  qed
qed

lemma merkleRoots_loop_result:
  "length arr = unat sz \<Longrightarrow> unat begin_m + unat sz \<le> 2 ^ 256 \<Longrightarrow> i \<le> sz \<Longrightarrow>
   merkleRoots_loop s begin_m sz i arr
     = Inr (take (unat i) arr @ map (\<lambda>k. monthMerkleRoots s (begin_m + of_nat k)) [unat i..<unat sz])"
proof (induction s begin_m sz i arr rule: merkleRoots_loop.induct)
  case (1 s begin_m sz i arr)
  show ?case
  proof (cases "i < sz")
    case False
    with "1.prems" have "i = sz" by simp
    with "1.prems" show ?thesis by (simp add: merkleRoots_loop.simps[of s begin_m sz sz])
  next
    case True
    then have lt: "unat i < unat sz" by (simp add: word_less_nat_alt)
    have nov: "\<not> 2 ^ 256 \<le> unat begin_m + unat i" using lt "1.prems"(2) by simp
    have su: "unat (i + 1) = Suc (unat i)" using True by (rule unat_succ_below)
    have le: "i + 1 \<le> sz" using lt su by (simp add: word_le_nat_alt)
    let ?arr = "arr[unat i := monthMerkleRoots s (begin_m + i)]"
    have len: "length ?arr = unat sz" using "1.prems"(1) by simp
    have IH: "merkleRoots_loop s begin_m sz (i + 1) ?arr
        = Inr (take (unat (i + 1)) ?arr
               @ map (\<lambda>k. monthMerkleRoots s (begin_m + of_nat k)) [unat (i + 1)..<unat sz])"
      using "1.IH"[OF True nov len "1.prems"(2) le] .
    have tk: "take (Suc (unat i)) ?arr = take (unat i) arr @ [monthMerkleRoots s (begin_m + i)]"
      using lt "1.prems"(1) by (simp add: take_Suc_conv_app_nth)
    have up: "[unat i..<unat sz] = unat i # [Suc (unat i)..<unat sz]"
      using lt by (simp add: upt_conv_Cons)
    have "merkleRoots_loop s begin_m sz i arr = merkleRoots_loop s begin_m sz (i + 1) ?arr"
      using True nov by (subst merkleRoots_loop.simps) simp
    also have "\<dots> = Inr (take (unat i) arr
               @ map (\<lambda>k. monthMerkleRoots s (begin_m + of_nat k)) [unat i..<unat sz])"
      unfolding IH su tk up by simp
    finally show ?thesis .
  qed
qed

lemma range_size:
  assumes le: "begin_m \<le> (end_m :: uint)" and nmax: "unat end_m < 2 ^ 256 - 1"
  shows "\<not> 2 ^ 256 \<le> 1 + unat end_m" "\<not> unat (1 + end_m) < unat begin_m"
    "unat (1 + end_m - begin_m) = unat end_m - unat begin_m + 1"
    "unat begin_m + unat (1 + end_m - begin_m) \<le> 2 ^ 256"
proof -
  have e1: "unat (1 + end_m) = unat end_m + 1"
    using nmax unat_add_checked[of 1 end_m] by simp
  have be: "unat begin_m \<le> unat end_m" using le by (simp add: word_le_nat_alt)
  then have "begin_m \<le> 1 + end_m" using e1 by (simp add: word_le_nat_alt)
  then show sz: "unat (1 + end_m - begin_m) = unat end_m - unat begin_m + 1"
    using e1 be by (simp add: unat_sub)
  show "\<not> 2 ^ 256 \<le> 1 + unat end_m" using nmax by simp
  show "\<not> unat (1 + end_m) < unat begin_m" using e1 be by simp
  show "unat begin_m + unat (1 + end_m - begin_m) \<le> 2 ^ 256" using sz be nmax by simp
qed

lemma claimStatus_result:
  assumes le: "begin_m \<le> end_m" and nmax: "unat end_m < 2 ^ 256 - 1"
    and fits: "unat end_m - unat begin_m + 1 < 2 ^ 64"
  shows "claimStatus s lp begin_m end_m
     = Inr (map (\<lambda>k. claimed s (begin_m + of_nat k) lp) [0..<unat end_m - unat begin_m + 1])"
proof -
  note R = range_size[OF le nmax]
  let ?sz = "1 + end_m - begin_m"
  have small: "\<not> 2 ^ 64 \<le> unat ?sz" using fits unfolding R(3) by simp
  have "claimStatus s lp begin_m end_m
      = claimStatus_loop s lp begin_m ?sz 0 (replicate (unat ?sz) False)"
    using R(1,2) small by (simp add: claimStatus_def Let_def)
  also have "\<dots> = Inr (take (unat (0::uint)) (replicate (unat ?sz) False)
         @ map (\<lambda>k. claimed s (begin_m + of_nat k) lp) [unat (0::uint)..<unat ?sz])"
    using R(4) by (intro claimStatus_loop_result) simp_all
  finally show ?thesis by (simp add: R(3))
qed

lemma merkleRoots_result:
  assumes le: "begin_m \<le> end_m" and nmax: "unat end_m < 2 ^ 256 - 1"
    and fits: "unat end_m - unat begin_m + 1 < 2 ^ 64"
  shows "merkleRoots s begin_m end_m
     = Inr (map (\<lambda>k. monthMerkleRoots s (begin_m + of_nat k)) [0..<unat end_m - unat begin_m + 1])"
proof -
  note R = range_size[OF le nmax]
  let ?sz = "1 + end_m - begin_m"
  have small: "\<not> 2 ^ 64 \<le> unat ?sz" using fits unfolding R(3) by simp
  have "merkleRoots s begin_m end_m
      = merkleRoots_loop s begin_m ?sz 0 (replicate (unat ?sz) 0)"
    using R(1,2) small by (simp add: merkleRoots_def Let_def)
  also have "\<dots> = Inr (take (unat (0::uint)) (replicate (unat ?sz) 0)
         @ map (\<lambda>k. monthMerkleRoots s (begin_m + of_nat k)) [unat (0::uint)..<unat ?sz])"
    using R(4) by (intro merkleRoots_loop_result) simp_all
  finally show ?thesis by (simp add: R(3))
qed

lemma range_too_long:
  assumes le: "begin_m \<le> end_m" and nmax: "unat end_m < 2 ^ 256 - 1"
    and long: "2 ^ 64 \<le> unat end_m - unat begin_m + 1"
  shows "claimStatus s lp begin_m end_m = Inl Panic_0x41"
    and "merkleRoots s begin_m end_m = Inl Panic_0x41"
proof -
  note R = range_size[OF le nmax]
  have big: "2 ^ 64 \<le> unat (1 + end_m - begin_m)" using long unfolding R(3) .
  show "claimStatus s lp begin_m end_m = Inl Panic_0x41"
    using R(1,2) big by (simp add: claimStatus_def Let_def)
  show "merkleRoots s begin_m end_m = Inl Panic_0x41"
    using R(1,2) big by (simp add: merkleRoots_def Let_def)
qed

lemma range_end_max:
  assumes "unat end_m = 2 ^ 256 - 1"
  shows "claimStatus s lp begin_m end_m = Inl Panic_0x11"
    and "merkleRoots s begin_m end_m = Inl Panic_0x11"
  using assms by (simp_all add: claimStatus_def merkleRoots_def)

text \<open>
  C6, as amended. For \<^verbatim>\<open>_begin \<le> _end\<close> with \<^verbatim>\<open>_end\<close> below the largest \<^verbatim>\<open>uint256\<close>
  and at most \<open>2^64 - 1\<close> periods in the range, \<^verbatim>\<open>claimStatus\<close> returns the array of length
  \<^verbatim>\<open>_end - _begin + 1\<close> whose element \<open>i\<close> is the claimed flag of period \<^verbatim>\<open>_begin + i\<close>
  for the address, and \<^verbatim>\<open>merkleRoots\<close> the array of the same length whose element \<open>i\<close> is
  the stored root of period \<^verbatim>\<open>_begin + i\<close>. With more than \<open>2^64 - 1\<close> periods in the range
  both getters revert with the panic of the array allocation, and with \<^verbatim>\<open>_end\<close> the largest
  \<^verbatim>\<open>uint256\<close> both revert with the arithmetic panic, whatever \<^verbatim>\<open>_begin\<close> is.
\<close>

theorem range_getters_within_limits:
  "(begin_m \<le> end_m \<and> unat end_m < 2 ^ 256 - 1 \<and> unat end_m - unat begin_m + 1 < 2 ^ 64 \<longrightarrow>
      claimStatus s lp begin_m end_m
        = Inr (map (\<lambda>i. claimed s (begin_m + of_nat i) lp) [0..<unat end_m - unat begin_m + 1])
      \<and> merkleRoots s begin_m end_m
        = Inr (map (\<lambda>i. monthMerkleRoots s (begin_m + of_nat i))
                 [0..<unat end_m - unat begin_m + 1]))
   \<and> (begin_m \<le> end_m \<and> unat end_m < 2 ^ 256 - 1 \<and> 2 ^ 64 \<le> unat end_m - unat begin_m + 1 \<longrightarrow>
        claimStatus s lp begin_m end_m = Inl Panic_0x41
        \<and> merkleRoots s begin_m end_m = Inl Panic_0x41)
   \<and> (unat end_m = 2 ^ 256 - 1 \<longrightarrow>
        claimStatus s lp begin_m end_m = Inl Panic_0x11
        \<and> merkleRoots s begin_m end_m = Inl Panic_0x11)"
  using claimStatus_result[of begin_m end_m s lp] merkleRoots_result[of begin_m end_m s]
    range_too_long(1)[of begin_m end_m s lp] range_too_long(2)[of begin_m end_m s]
    range_end_max(1)[of end_m s lp begin_m] range_end_max(2)[of end_m s begin_m]
  by blast

theorem range_getters_within_limits_witness:
  "claimStatus (mark_claimed 2 7 seeded) 7 1 3 = Inr [False, True, False]
   \<and> merkleRoots seeded 1 3 = Inr [107, 107, 0]
   \<and> claimStatus seeded 7 0 18446744073709551616 = Inl Panic_0x41
   \<and> merkleRoots seeded 0 18446744073709551616 = Inl Panic_0x41
   \<and> claimStatus seeded 7 0 (- 1) = Inl Panic_0x11
   \<and> merkleRoots seeded 0 (- 1) = Inl Panic_0x11"
proof -
  have pre: "(1 :: uint) \<le> 3 \<and> unat (3 :: uint) < 2 ^ 256 - 1
      \<and> unat (3 :: uint) - unat (1 :: uint) + 1 < 2 ^ 64"
    by simp
  have n: "[0..<unat (3 :: uint) - unat (1 :: uint) + 1] = [0, 1, 2]"
    by (simp add: upt_rec)
  have a: "claimStatus (mark_claimed 2 7 seeded) 7 1 3 = Inr [False, True, False]"
    using range_getters_within_limits[of 1 3 "mark_claimed 2 7 seeded" 7] pre
    unfolding n by (simp add: mark_claimed_def seeded_simps)
  have b: "merkleRoots seeded 1 3 = Inr [107, 107, 0]"
    using range_getters_within_limits[of 1 3 seeded 7] pre
    unfolding n by (simp add: seeded_roots)
  have pre2: "(0 :: uint) \<le> 18446744073709551616
      \<and> unat (18446744073709551616 :: uint) < 2 ^ 256 - 1
      \<and> 2 ^ 64 \<le> unat (18446744073709551616 :: uint) - unat (0 :: uint) + 1"
    by simp
  have c: "claimStatus seeded 7 0 18446744073709551616 = Inl Panic_0x41
      \<and> merkleRoots seeded 0 18446744073709551616 = Inl Panic_0x41"
    using range_getters_within_limits[of 0 18446744073709551616 seeded 7] pre2 by blast
  have d: "claimStatus seeded 7 0 (- 1) = Inl Panic_0x11
      \<and> merkleRoots seeded 0 (- 1) = Inl Panic_0x11"
    using range_getters_within_limits[of 0 "- 1" seeded 7] unat_max_uint by blast
  from a b c d show ?thesis by blast
qed

text \<open>
  C6 as stated fails at both ends of the range of \<^verbatim>\<open>uint256\<close>. With
  \<^verbatim>\<open>_begin = _end = 2^256 - 1\<close> the checked addition \<^verbatim>\<open>1 + _end\<close> overflows and both
  getters revert instead of returning the one-element array. With \<^verbatim>\<open>_begin = 0\<close> and
  \<^verbatim>\<open>_end = 2^64\<close> the array of \<open>2^64 + 1\<close> elements is refused by the allocation and both
  getters revert.
\<close>

theorem range_getters_revert_counterexample:
  "(- 1 :: uint) \<le> - 1
   \<and> claimStatus seeded 7 (- 1) (- 1) = Inl Panic_0x11
   \<and> merkleRoots seeded (- 1) (- 1) = Inl Panic_0x11
   \<and> (0 :: uint) \<le> 18446744073709551616
   \<and> claimStatus seeded 7 0 18446744073709551616 = Inl Panic_0x41
   \<and> merkleRoots seeded 0 18446744073709551616 = Inl Panic_0x41"
  by (simp add: claimStatus_def merkleRoots_def unat_max_uint Let_def)

section \<open>Properties of the pool sizing\<close>

lemma bn_div_basis: "bn_div a basis = Inr (sgn a * (\<bar>a\<bar> div basis))"
  by (simp add: bn_div_def basis_def)

lemma fullReward_eq:
  "fullReward lastamount target stakePct
     = Inr (sgn (lastamount * (basis + target - stakePct))
             * (\<bar>lastamount * (basis + target - stakePct)\<bar> div basis))"
  by (simp add: fullReward_def Let_def bn_div_basis)

text \<open>
  C5, as amended. The pool is \<^verbatim>\<open>lastamount * (basis + target - stakePercent) / basis\<close> with
  \<open>basis = 10^9\<close>, in unbounded signed integers with the quotient truncated towards zero:
  the computation always returns (nothing underflows, the divisor is not zero), and its
  magnitude is the integer quotient of the magnitudes. It is not clamped. For a non-negative
  \<^verbatim>\<open>lastamount\<close> it is non-negative while \<^verbatim>\<open>stakePercent\<close> is at most
  \<^verbatim>\<open>basis + target\<close>, and it is the negated quotient, hence at most 0, when
  \<^verbatim>\<open>stakePercent\<close> exceeds \<^verbatim>\<open>basis + target\<close>.
\<close>

theorem pool_nonnegative_up_to_basis_plus_target:
  "(\<exists>pool. fullReward lastamount target stakePct = Inr pool
       \<and> \<bar>pool\<bar> = \<bar>lastamount * (basis + target - stakePct)\<bar> div basis
       \<and> (0 \<le> lastamount \<and> stakePct \<le> basis + target \<longrightarrow>
             0 \<le> pool \<and> pool = lastamount * (basis + target - stakePct) div basis)
       \<and> (0 \<le> lastamount \<and> basis + target < stakePct \<longrightarrow>
             pool \<le> 0 \<and> pool = - (lastamount * (stakePct - basis - target) div basis)))"
proof -
  let ?m = "basis + target - stakePct"
  let ?pool = "sgn (lastamount * ?m) * (\<bar>lastamount * ?m\<bar> div basis)"
  have bpos: "0 < basis" by (simp add: basis_def)
  have q: "0 \<le> \<bar>lastamount * ?m\<bar> div basis" using bpos by (simp add: pos_imp_zdiv_nonneg_iff)
  have 1: "fullReward lastamount target stakePct = Inr ?pool" by (rule fullReward_eq)
  have 2: "\<bar>?pool\<bar> = \<bar>lastamount * ?m\<bar> div basis"
  proof (cases "lastamount * ?m = 0")
    case True
    show ?thesis unfolding True by simp
  next
    case False
    then have "\<bar>sgn (lastamount * ?m)\<bar> = 1" by (simp add: abs_sgn_eq)
    then show ?thesis using q by (simp add: abs_mult)
  qed
  have 3: "0 \<le> ?pool \<and> ?pool = lastamount * ?m div basis"
    if h: "0 \<le> lastamount \<and> stakePct \<le> basis + target"
  proof -
    from h have nn: "0 \<le> lastamount * ?m" by simp
    show ?thesis
    proof (cases "lastamount * ?m = 0")
      case True
      show ?thesis unfolding True by simp
    next
      case False
      with nn have "0 < lastamount * ?m" by linarith
      then show ?thesis using q by simp
    qed
  qed
  have 4: "?pool \<le> 0 \<and> ?pool = - (lastamount * (stakePct - basis - target) div basis)"
    if h: "0 \<le> lastamount \<and> basis + target < stakePct"
  proof -
    have e: "lastamount * ?m = - (lastamount * (stakePct - basis - target))"
      by (simp add: algebra_simps)
    from h have nn: "0 \<le> lastamount * (stakePct - basis - target)" by simp
    show ?thesis
    proof (cases "lastamount * (stakePct - basis - target) = 0")
      case True
      show ?thesis unfolding e True by simp
    next
      case False
      with nn have p: "0 < lastamount * (stakePct - basis - target)" by linarith
      then have "sgn (lastamount * ?m) = - 1" unfolding e by simp
      moreover have "\<bar>lastamount * ?m\<bar> = lastamount * (stakePct - basis - target)"
        unfolding e using p by simp
      moreover have "0 \<le> lastamount * (stakePct - basis - target) div basis"
        using p bpos by (simp add: pos_imp_zdiv_nonneg_iff)
      ultimately show ?thesis by simp
    qed
  qed
  from 1 2 3 4 show ?thesis by blast
qed

theorem pool_nonnegative_up_to_basis_plus_target_witness:
  "fullReward 1000 290000000 300000000 = Inr 990
   \<and> fullReward 1000 290000000 2000000000 = Inr (- 710)"
proof -
  from pool_nonnegative_up_to_basis_plus_target[of 1000 290000000 300000000]
  have a: "fullReward 1000 290000000 300000000 = Inr 990"
    by (auto simp: basis_def)
  from pool_nonnegative_up_to_basis_plus_target[of 1000 290000000 2000000000]
  have b: "fullReward 1000 290000000 2000000000 = Inr (- 710)"
    by (auto simp: basis_def)
  from a b show ?thesis by blast
qed

text \<open>
  C5 as stated fails: with a last amount of 1000, the target of the base month (29 percent),
  2 tokens staked and a total supply of 1, \<^verbatim>\<open>stakePercent\<close> is \<open>2 * 10^9\<close>, above
  \<^verbatim>\<open>basis + target\<close>, and the pool is -710.
\<close>

theorem pool_negative_counterexample:
  "target_of 0 = 290000000 \<and> stakePercent 2 1 = Inr 2000000000
   \<and> pool_sizing 1000 (target_of 0) 2 1 = Inr (- 710)
   \<and> \<not> non_negative_pool (pool_sizing 1000 (target_of 0) 2 1)"
  by (simp add: target_of_def stakePercent_def pool_sizing_def fullReward_def bn_div_def basis_def
      non_negative_pool_def Let_def)

section \<open>Properties of the event fetcher\<close>

lemma fetchStakeSets_fst:
  "fst (fetchStakeSets net bs be ep lastId reqs)
     = (case net ep \<lparr>blocknumber_gte = bs, blocknumber_lt = be, id_gt = lastId\<rparr> of
          None \<Rightarrow> Inl Fetch_failed | Some sets \<Rightarrow> Inr sets)"
  by (simp add: fetchStakeSets_def Let_def)

declare fetchAllStakeSets_loop.simps [simp del]

lemma loop_error_is_fetch:
  "fst (fetchAllStakeSets_loop net bs be ep i batches lastId reqs) = Inl e \<Longrightarrow> e = Fetch_failed"
proof (induction net bs be ep i batches lastId reqs rule: fetchAllStakeSets_loop.induct)
  case (1 net bs be ep i batches lastId reqs)
  show ?case
  proof (cases "i < 1000")
    case False
    with "1.prems" show ?thesis by (simp add: fetchAllStakeSets_loop.simps)
  next
    case True
    obtain r reqs' where f: "fetchStakeSets net bs be ep lastId reqs = (r, reqs')"
      by (cases "fetchStakeSets net bs be ep lastId reqs")
    show ?thesis
    proof (cases r)
      case (Inl e')
      have "e' = Fetch_failed"
        using f Inl fetchStakeSets_fst[of net bs be ep lastId reqs]
        by (auto split: option.splits)
      moreover have "fetchAllStakeSets_loop net bs be ep i batches lastId reqs = (Inl e', reqs')"
        using True f Inl by (subst fetchAllStakeSets_loop.simps) simp
      ultimately show ?thesis using "1.prems" by simp
    next
      case (Inr sets)
      show ?thesis
      proof (cases "length sets < 1000")
        case short: True
        have "fetchAllStakeSets_loop net bs be ep i batches lastId reqs = (Inr (batches @ [sets]), reqs')"
          using True f Inr short by (subst fetchAllStakeSets_loop.simps) (simp add: Let_def)
        with "1.prems" show ?thesis by simp
      next
        case long: False
        have "fetchAllStakeSets_loop net bs be ep i batches lastId reqs
            = fetchAllStakeSets_loop net bs be ep (i + 1) (batches @ [sets]) (sid (sets ! 999)) reqs'"
          using True f Inr long by (subst fetchAllStakeSets_loop.simps) (simp add: Let_def)
        with "1.prems" "1.IH"[OF True f[symmetric] Inr refl long] show ?thesis by simp
      qed
    qed
  qed
qed

lemma fetchAll_error_is_fetch:
  "fst (fetchAllStakeSets net bs be ep reqs) = Inl e \<Longrightarrow> e = Fetch_failed"
proof -
  assume a: "fst (fetchAllStakeSets net bs be ep reqs) = Inl e"
  obtain r reqs' where l: "fetchAllStakeSets_loop net bs be ep 0 [] [] reqs = (r, reqs')"
    by (cases "fetchAllStakeSets_loop net bs be ep 0 [] [] reqs")
  with a have "r = Inl e" by (cases r) (simp_all add: fetchAllStakeSets_def)
  with l have "fst (fetchAllStakeSets_loop net bs be ep 0 [] [] reqs) = Inl e" by simp
  then show ?thesis by (rule loop_error_is_fetch)
qed

lemma parseStakeSet_error:
  "parseStakeSet cv s = Inl e \<Longrightarrow> e = Invalid_address \<or> e = Invalid_BigNumber"
  by (auto simp: parseStakeSet_def split: option.splits)

lemma parse_error_is_conversion:
  "parseStakeSetsIntoEvents cv sets = Inl e \<Longrightarrow> e = Invalid_address \<or> e = Invalid_BigNumber"
  by (induction sets arbitrary: e) (auto split: sum.splits dest: parseStakeSet_error)

text \<open>
  C8. For every chain id other than 42161 \<^verbatim>\<open>getStakeSets\<close> throws the unsupported-chain
  error at once: the list of requests sent is unchanged, whatever the network would answer.
  That error is not the one a failing fetch raises: on chain 42161 the result is never the
  unsupported-chain error, and when the first request fails the result is the fetch error.
\<close>

theorem unsupported_chain_fails_before_fetch:
  "(chainId \<noteq> 42161 \<longrightarrow>
      getStakeSets net cv blockStart blockEnd chainId reqs = (Inl Unsupported_chain, reqs))
   \<and> (chainId = 42161 \<longrightarrow>
        fst (getStakeSets net cv blockStart blockEnd chainId reqs) \<noteq> Inl Unsupported_chain)
   \<and> (chainId = 42161
        \<and> net ''https://api.studio.thegraph.com/query/44313/kleros-v2-neo-mainnet/version/latest''
             \<lparr>blocknumber_gte = blockStart, blocknumber_lt = blockEnd, id_gt = []\<rparr> = None
      \<longrightarrow> fst (getStakeSets net cv blockStart blockEnd chainId reqs) = Inl Fetch_failed)"
proof (intro conjI impI)
  assume "chainId \<noteq> 42161"
  then show "getStakeSets net cv blockStart blockEnd chainId reqs = (Inl Unsupported_chain, reqs)"
    by (simp add: getStakeSets_def)
next
  let ?ep = "''https://api.studio.thegraph.com/query/44313/kleros-v2-neo-mainnet/version/latest''"
  assume c: "chainId = 42161"
  obtain r reqs' where f: "fetchAllStakeSets net blockStart blockEnd ?ep reqs = (r, reqs')"
    by (cases "fetchAllStakeSets net blockStart blockEnd ?ep reqs")
  show "fst (getStakeSets net cv blockStart blockEnd chainId reqs) \<noteq> Inl Unsupported_chain"
  proof (cases r)
    case (Inl e)
    with f have "e = Fetch_failed" using fetchAll_error_is_fetch[of net blockStart blockEnd ?ep reqs e] by simp
    then show ?thesis using c f Inl by (simp add: getStakeSets_def)
  next
    case (Inr sets)
    show ?thesis
    proof (cases "parseStakeSetsIntoEvents cv sets")
      case (Inl e)
      then have "e = Invalid_address \<or> e = Invalid_BigNumber"
        by (rule parse_error_is_conversion)
      then show ?thesis using c f Inr Inl by (auto simp: getStakeSets_def)
    next
      case (Inr parsed)
      then show ?thesis using c f \<open>r = Inr sets\<close> by (simp add: getStakeSets_def)
    qed
  qed
next
  let ?ep = "''https://api.studio.thegraph.com/query/44313/kleros-v2-neo-mainnet/version/latest''"
  assume a: "chainId = 42161 \<and> net ?ep \<lparr>blocknumber_gte = blockStart, blocknumber_lt = blockEnd, id_gt = []\<rparr> = None"
  then have "fetchAllStakeSets_loop net blockStart blockEnd ?ep 0 [] [] reqs
      = (Inl Fetch_failed, reqs @ [(?ep, \<lparr>blocknumber_gte = blockStart, blocknumber_lt = blockEnd, id_gt = []\<rparr>)])"
    by (subst fetchAllStakeSets_loop.simps) (simp add: fetchStakeSets_def Let_def)
  then show "fst (getStakeSets net cv blockStart blockEnd chainId reqs) = Inl Fetch_failed"
    using a by (simp add: getStakeSets_def fetchAllStakeSets_def)
qed

theorem unsupported_chain_fails_before_fetch_witness:
  "getStakeSets offline plain_conversions 0 100 1 [] = (Inl Unsupported_chain, [])
   \<and> getStakeSets (subgraph []) plain_conversions 0 100 42161 [] \<noteq> (Inl Unsupported_chain, [])
   \<and> fst (getStakeSets offline plain_conversions 0 100 42161 []) = Inl Fetch_failed"
proof -
  have a: "getStakeSets offline plain_conversions 0 100 1 [] = (Inl Unsupported_chain, [])"
    using unsupported_chain_fails_before_fetch[of 1 offline plain_conversions 0 100 "[]"] by simp
  have "fst (getStakeSets (subgraph []) plain_conversions 0 100 42161 []) \<noteq> Inl Unsupported_chain"
    using unsupported_chain_fails_before_fetch[of 42161 "subgraph []" plain_conversions 0 100 "[]"] by simp
  then have b: "getStakeSets (subgraph []) plain_conversions 0 100 42161 [] \<noteq> (Inl Unsupported_chain, [])"
    by auto
  have c: "fst (getStakeSets offline plain_conversions 0 100 42161 []) = Inl Fetch_failed"
    using unsupported_chain_fails_before_fetch[of 42161 offline plain_conversions 0 100 "[]"]
    by (simp add: offline_def)
  from a b c show ?thesis by blast
qed

lemma subgraph_page:
  "subgraph db ep \<lparr>blocknumber_gte = bs, blocknumber_lt = be, id_gt = c\<rparr>
     = Some (take 1000 (rows_after db bs be c))"
proof -
  have "filter (\<lambda>r. in_range bs be r \<and> c < sid r) db
      = filter (\<lambda>r. c < sid r) (filter (in_range bs be) db)"
    by (simp add: conj_commute)
  then show ?thesis
    by (simp add: subgraph_def rows_after_def filter_sort)
qed

lemma rows_after_strict:
  assumes "distinct (map sid db)"
  shows "sorted_wrt (\<lambda>a b. sid a < sid b) (rows_after db bs be c)"
proof -
  let ?S = "sort_key sid (filter (in_range bs be) db)"
  have d: "distinct (map sid (filter (in_range bs be) db))"
    using assms by (rule distinct_map_filter)
  have "mset (map sid ?S) = mset (map sid (filter (in_range bs be) db))" by simp
  then have "distinct (map sid ?S)" using d mset_eq_imp_distinct_iff by blast
  moreover have "sorted (map sid ?S)" by (rule sorted_sort_key)
  ultimately have "sorted_wrt (<) (map sid ?S)" by (simp add: strict_sorted_iff)
  then have "sorted_wrt (\<lambda>a b. sid a < sid b) ?S" by (simp add: sorted_wrt_map)
  then show ?thesis unfolding rows_after_def by (rule sorted_wrt_filter)
qed

lemma filter_above_nth:
  "sorted_wrt (\<lambda>a b. sid a < sid b) xs \<Longrightarrow> n < length xs \<Longrightarrow>
   filter (\<lambda>r. sid (xs ! n) < sid r) xs = drop (Suc n) xs"
proof (induction xs arbitrary: n)
  case Nil
  then show ?case by simp
next
  case (Cons x xs)
  from Cons.prems(1) have above: "\<forall>y \<in> set xs. sid x < sid y"
    and srt: "sorted_wrt (\<lambda>a b. sid a < sid b) xs"
    by simp_all
  show ?case
  proof (cases n)
    case 0
    have "filter (\<lambda>r. sid x < sid r) xs = xs" using above by (simp add: filter_id_conv)
    then show ?thesis using 0 by simp
  next
    case (Suc k)
    with Cons.prems(2) have k: "k < length xs" by simp
    then have "sid x < sid (xs ! k)" using above by simp
    then have "\<not> sid (xs ! k) < sid x" by simp
    then show ?thesis using Suc Cons.IH[OF srt k] by simp
  qed
qed

lemma rows_after_next:
  assumes strict: "distinct (map sid db)" and len: "1000 \<le> length (rows_after db bs be c)"
  shows "rows_after db bs be (sid (take 1000 (rows_after db bs be c) ! 999))
           = drop 1000 (rows_after db bs be c)"
proof -
  let ?L = "rows_after db bs be c"
  define c' where "c' = sid (?L ! 999)"
  have n: "999 < length ?L" using len by simp
  then have "?L ! 999 \<in> set ?L" by (rule nth_mem)
  then have lt: "c < c'" by (simp add: rows_after_def c'_def)
  have both: "\<And>r. (c < sid r \<and> c' < sid r) = (c' < sid r)"
    using lt by (auto intro: less_trans)
  have "rows_after db bs be c' = filter (\<lambda>r. c' < sid r) ?L"
    by (simp add: rows_after_def both)
  also have "\<dots> = drop (Suc 999) ?L"
    unfolding c'_def using rows_after_strict[OF strict] n by (rule filter_above_nth)
  finally show ?thesis using n by (simp add: c'_def)
qed

lemma fetch_loop_honest:
  assumes strict: "distinct (map sid db)"
  shows "\<exists>bts reqs'.
      fetchAllStakeSets_loop (subgraph db) bs be ep i batches c reqs = (Inr bts, reqs')
      \<and> concat bts = concat batches @ take ((1000 - i) * 1000) (rows_after db bs be c)"
proof (induction "subgraph db" bs be ep i batches c reqs rule: fetchAllStakeSets_loop.induct)
  case (1 bs be ep i batches c reqs)
  let ?L = "rows_after db bs be c"
  let ?sets = "take 1000 ?L"
  let ?reqs' = "reqs @ [(ep, \<lparr>blocknumber_gte = bs, blocknumber_lt = be, id_gt = c\<rparr>)]"
  have f: "fetchStakeSets (subgraph db) bs be ep c reqs = (Inr ?sets, ?reqs')"
    by (simp add: fetchStakeSets_def Let_def subgraph_page)
  show ?case
  proof (cases "i < 1000")
    case False
    then show ?thesis by (subst fetchAllStakeSets_loop.simps) simp
  next
    case True
    show ?thesis
    proof (cases "length ?sets < 1000")
      case short: True
      then have all: "?sets = ?L" by simp
      have big: "length ?L \<le> (1000 - i) * 1000" using short True by simp
      have sl: "length ?L < 1000" using short by simp
      have "fetchAllStakeSets_loop (subgraph db) bs be ep i batches c reqs
          = (Inr (batches @ [?sets]), ?reqs')"
        using True f sl by (subst fetchAllStakeSets_loop.simps) (simp add: Let_def)
      moreover have "concat (batches @ [?sets])
          = concat batches @ take ((1000 - i) * 1000) ?L"
        using big all by simp
      ultimately show ?thesis by blast
    next
      case long: False
      then have len: "1000 \<le> length ?L" by simp
      have nxt: "rows_after db bs be (sid (?sets ! 999)) = drop 1000 ?L"
        using strict len by (rule rows_after_next)
      have rec: "fetchAllStakeSets_loop (subgraph db) bs be ep i batches c reqs
          = fetchAllStakeSets_loop (subgraph db) bs be ep (i + 1) (batches @ [?sets])
              (sid (?sets ! 999)) ?reqs'"
        using True f long by (subst fetchAllStakeSets_loop.simps) (simp add: Let_def)
      from "1.hyps"[OF True f[symmetric] refl refl long]
      obtain bts reqs' where
        r: "fetchAllStakeSets_loop (subgraph db) bs be ep (i + 1) (batches @ [?sets])
              (sid (?sets ! 999)) ?reqs' = (Inr bts, reqs')"
        and c: "concat bts = concat (batches @ [?sets])
              @ take ((1000 - (i + 1)) * 1000) (rows_after db bs be (sid (?sets ! 999)))"
        by blast
      have ar: "(1000 - i) * 1000 = 1000 + (1000 - (i + 1)) * 1000" using True by simp
      have "concat bts = concat batches @ take ((1000 - i) * 1000) ?L"
        unfolding c nxt ar take_add by simp
      with r rec show ?thesis by simp
    qed
  qed
qed


lemma rows_after_Nil:
  "\<forall>r \<in> set db. sid r \<noteq> [] \<Longrightarrow>
   rows_after db bs be [] = sort_key sid (filter (in_range bs be) db)"
proof -
  assume ne: "\<forall>r \<in> set db. sid r \<noteq> []"
  have "[] < sid r" if "r \<in> set db" for r
    using ne that by (cases "sid r") simp_all
  then show ?thesis by (simp add: rows_after_def filter_id_conv)
qed

lemma fetchAll_honest:
  assumes d: "distinct (map sid db)" and ne: "\<forall>r \<in> set db. sid r \<noteq> []"
  shows "\<exists>reqs'. fetchAllStakeSets (subgraph db) bs be ep reqs
     = (Inr (take 1000000 (sort_key sid (filter (in_range bs be) db))), reqs')"
proof -
  from fetch_loop_honest[OF d, of bs be ep 0 "[]" "[]" reqs] obtain bts reqs' where
    l: "fetchAllStakeSets_loop (subgraph db) bs be ep 0 [] [] reqs = (Inr bts, reqs')"
    and c: "concat bts = concat [] @ take ((1000 - 0) * 1000) (rows_after db bs be [])"
    by blast
  have "concat bts = take 1000000 (sort_key sid (filter (in_range bs be) db))"
    unfolding c rows_after_Nil[OF ne] by simp
  then show ?thesis using l by (simp add: fetchAllStakeSets_def)
qed

text \<open>
  C7, as amended. Against a subgraph that answers the query as asked, whose rows have
  distinct, non-empty ids, \<^verbatim>\<open>fetchAllStakeSets\<close> returns: the rows are the first 1000000,
  in ascending order of id, of the rows whose block number lies in
  \<^verbatim>\<open>[blockStart, blockEnd)\<close>; none is returned twice and none lies outside the range; and
  when at most 1000000 rows lie in the range, the rows returned are exactly those.
\<close>

theorem fetcher_complete_up_to_a_million:
  "distinct (map sid db) \<and> (\<forall>r \<in> set db. sid r \<noteq> []) \<longrightarrow>
     (\<exists>rows reqs'.
        fetchAllStakeSets (subgraph db) blockStart blockEnd ep reqs = (Inr rows, reqs')
        \<and> rows = take 1000000 (sort_key sid (filter (in_range blockStart blockEnd) db))
        \<and> distinct rows
        \<and> (\<forall>r \<in> set rows. r \<in> set db \<and> in_range blockStart blockEnd r)
        \<and> (length (filter (in_range blockStart blockEnd) db) \<le> 1000000 \<longrightarrow>
             set rows = {r \<in> set db. in_range blockStart blockEnd r}))"
proof (intro impI, elim conjE)
  assume d: "distinct (map sid db)" and ne: "\<forall>r \<in> set db. sid r \<noteq> []"
  let ?P = "filter (in_range blockStart blockEnd) db"
  let ?rows = "take 1000000 (sort_key sid ?P)"
  from fetchAll_honest[OF d ne] obtain reqs' where
    f: "fetchAllStakeSets (subgraph db) blockStart blockEnd ep reqs = (Inr ?rows, reqs')"
    by blast
  have "distinct db" using d by (simp add: distinct_map)
  then have "distinct (sort_key sid ?P)" by simp
  then have 1: "distinct ?rows" by (rule distinct_take)
  have "set ?rows \<subseteq> set (sort_key sid ?P)" by (rule set_take_subset)
  then have 2: "\<forall>r \<in> set ?rows. r \<in> set db \<and> in_range blockStart blockEnd r" by auto
  have 3: "set ?rows = {r \<in> set db. in_range blockStart blockEnd r}"
    if "length ?P \<le> 1000000"
    using that by simp
  from f 1 2 3 show "\<exists>rows reqs'.
        fetchAllStakeSets (subgraph db) blockStart blockEnd ep reqs = (Inr rows, reqs')
        \<and> rows = take 1000000 (sort_key sid (filter (in_range blockStart blockEnd) db))
        \<and> distinct rows
        \<and> (\<forall>r \<in> set rows. r \<in> set db \<and> in_range blockStart blockEnd r)
        \<and> (length (filter (in_range blockStart blockEnd) db) \<le> 1000000 \<longrightarrow>
             set rows = {r \<in> set db. in_range blockStart blockEnd r})"
    by blast
qed

theorem fetcher_complete_up_to_a_million_witness:
  "distinct (map sid demo_db)
   \<and> filter (in_range 10 20) demo_db = [demo_row ''b'' 15, demo_row ''a'' 12]
   \<and> (\<exists>reqs'. fetchAllStakeSets (subgraph demo_db) 10 20 [] []
         = (Inr [demo_row ''a'' 12, demo_row ''b'' 15], reqs'))"
proof -
  have d: "distinct (map sid demo_db)" by (simp add: demo_db_def demo_row_def)
  have ne: "\<forall>r \<in> set demo_db. sid r \<noteq> []" by (simp add: demo_db_def demo_row_def)
  have p: "filter (in_range 10 20) demo_db = [demo_row ''b'' 15, demo_row ''a'' 12]"
    by (simp add: demo_db_def demo_row_def in_range_def)
  have s: "take 1000000 (sort_key sid (filter (in_range 10 20) demo_db))
      = [demo_row ''a'' 12, demo_row ''b'' 15]"
    unfolding p by (simp add: demo_row_def less_eq_char_def less_char_def)
  from fetcher_complete_up_to_a_million[of demo_db 10 20 "[]" "[]"] d ne
  have "\<exists>reqs'. fetchAllStakeSets (subgraph demo_db) 10 20 [] []
         = (Inr [demo_row ''a'' 12, demo_row ''b'' 15], reqs')"
    unfolding s by blast
  with d p show ?thesis by blast
qed

lemma replicate_mono: "m \<le> n \<Longrightarrow> replicate m (c :: char) \<le> replicate n c"
proof (induction m arbitrary: n)
  case 0
  then show ?case by simp
next
  case (Suc m)
  then obtain k where "n = Suc k" and "m \<le> k" by (cases n) simp_all
  with Suc.IH[of k] show ?case by simp
qed

lemma flood_row_inj: "flood_row i = flood_row j \<Longrightarrow> i = j"
proof -
  assume "flood_row i = flood_row j"
  then have "sid (flood_row i) = sid (flood_row j)" by simp
  then have "length (replicate (Suc i) CHR ''a'') = length (replicate (Suc j) CHR ''a'')"
    by (simp only: flood_row_def demo_row_def stakeSet.simps)
  then show ?thesis by simp
qed

lemma flood_facts:
  "distinct (map sid (flood n))" "\<forall>r \<in> set (flood n). sid r \<noteq> []"
  "filter (in_range 0 10) (flood n) = flood n" "sort_key sid (flood n) = flood n"
proof -
  have sid: "map sid (flood n) = map (\<lambda>k. replicate (Suc k) CHR ''a'') [0..<n]"
    by (simp add: flood_def flood_row_def demo_row_def)
  have "inj_on (\<lambda>k. replicate (Suc k) CHR ''a'') (set [0..<n])"
  proof (rule inj_onI)
    fix i j :: nat
    assume "replicate (Suc i) CHR ''a'' = replicate (Suc j) CHR ''a''"
    then have "length (replicate (Suc i) CHR ''a'') = length (replicate (Suc j) CHR ''a'')"
      by (rule arg_cong)
    then show "i = j" by simp
  qed
  then show "distinct (map sid (flood n))" unfolding sid by (simp add: distinct_map)
  show "\<forall>r \<in> set (flood n). sid r \<noteq> []"
    by (auto simp: flood_def flood_row_def demo_row_def)
  show "filter (in_range 0 10) (flood n) = flood n"
    by (auto simp: flood_def flood_row_def demo_row_def in_range_def filter_id_conv)
  have "sorted (map (\<lambda>k. replicate (Suc k) CHR ''a'') [0..<n])"
    unfolding sorted_map
    by (rule sorted_wrt_mono_rel[OF _ sorted_upt[of 0 n]]) (simp add: replicate_mono)
  then have "sorted (map sid (flood n))" unfolding sid .
  then show "sort_key sid (flood n) = flood n" by (rule sort_key_id_if_sorted)
qed

lemma take_flood: "m \<le> n \<Longrightarrow> take m (flood n) = flood m"
  by (simp add: flood_def take_map)

text \<open>
  C7 as stated fails beyond 1000 pages of 1000 rows: with 1000001 rows in the range the loop
  stops after its 1000th page and returns the first 1000000 rows; the row with the largest
  id is in the range and is not returned.
\<close>

theorem fetcher_omits_beyond_a_million_counterexample:
  "in_range 0 10 (flood_row 1000000)
   \<and> flood_row 1000000 \<in> set (flood 1000001)
   \<and> fst (fetchAllStakeSets (subgraph (flood 1000001)) 0 10 [] []) = Inr (flood 1000000)
   \<and> flood_row 1000000 \<notin> set (flood 1000000)"
proof -
  have 1: "in_range 0 10 (flood_row 1000000)"
    by (simp add: in_range_def flood_row_def demo_row_def)
  have "(1000000 :: nat) < 1000001" by simp
  then have "flood_row 1000000 \<in> flood_row ` {0..<1000001}" by (intro imageI) simp
  then have 2: "flood_row 1000000 \<in> set (flood 1000001)"
    by (simp only: flood_def set_map set_upt)
  have "take 1000000 (sort_key sid (filter (in_range 0 10) (flood 1000001))) = flood 1000000"
    unfolding flood_facts(3,4) by (rule take_flood) simp
  with fetchAll_honest[OF flood_facts(1,2), of 1000001 0 10 "[]" "[]"]
  have 3: "fst (fetchAllStakeSets (subgraph (flood 1000001)) 0 10 [] []) = Inr (flood 1000000)"
    by auto
  have 4: "flood_row 1000000 \<notin> set (flood 1000000)"
  proof
    assume "flood_row 1000000 \<in> set (flood 1000000)"
    then have "flood_row 1000000 \<in> flood_row ` {0..<1000000}"
      by (simp only: flood_def set_map set_upt)
    then obtain k where "k < 1000000" and "flood_row 1000000 = flood_row k" by auto
    then show False using flood_row_inj[of 1000000 k] by simp
  qed
  from 1 2 3 4 show ?thesis by blast
qed

end
